theory Spec2Isabelle
  imports Main "HOL-Library.Word"
begin

section \<open>Data model\<close>

text \<open>
  The simulator of \<^verbatim>\<open>sched3.c\<close> (framework) and \<^verbatim>\<open>pa2.c\<close> (policies) keeps its
  whole state in globals: \<^verbatim>\<open>readyqueue\<close>, \<^verbatim>\<open>__forkqueue\<close>, \<^verbatim>\<open>current\<close>,
  \<^verbatim>\<open>ticks\<close>, \<^verbatim>\<open>resources[NR_RESOURCES]\<close> and the round-robin counter
  \<^verbatim>\<open>ticks_cnt\<close>.  The headers \<^verbatim>\<open>process.h\<close>, \<^verbatim>\<open>resource.h\<close>, \<^verbatim>\<open>sched.h\<close> and
  \<^verbatim>\<open>list_head.h\<close> are not among the sources.  The fields below are the ones the two
  C files read and write.  Fields whose C type is declared in a missing header
  (\<^verbatim>\<open>pid\<close>, \<^verbatim>\<open>age\<close>, \<^verbatim>\<open>lifespan\<close>, \<^verbatim>\<open>prio\<close>, \<^verbatim>\<open>prio_orig\<close>,
  \<^verbatim>\<open>__starts_at\<close>) are natural numbers; \<^verbatim>\<open>ticks\<close> is \<^verbatim>\<open>unsigned int\<close> and
  \<^verbatim>\<open>ticks_cnt\<close> is \<^verbatim>\<open>int\<close> in the source, both are 32-bit words here (the
  comparison \<^verbatim>\<open>ticks == ticks_cnt\<close> converts the \<^verbatim>\<open>int\<close> to unsigned, which is
  equality of the bit patterns).  The constants \<^verbatim>\<open>MAX_PRIO\<close> and \<^verbatim>\<open>NR_RESOURCES\<close>
  come from the missing headers as well and are parameters of the model.

  A process is referred to by its address (a natural number); \<^verbatim>\<open>struct process *\<close>
  that may be \<^verbatim>\<open>NULL\<close> is \<open>nat option\<close>.
\<close>

datatype process_status = PROCESS_READY | PROCESS_RUNNING | PROCESS_WAIT | PROCESS_EXIT

record resource_schedule =
  resource_id :: nat
  at :: int
  duration :: int

record process =
  pid :: nat
  status :: process_status
  age :: nat
  lifespan :: nat
  prio :: nat
  prio_orig :: nat
  starts_at :: nat
  resources_to_acquire :: "resource_schedule list"
  resources_holding :: "resource_schedule list"

record resource =
  owner :: "nat option"
  waitqueue :: "nat list"

text \<open>What \<^verbatim>\<open>__print_event\<close> and the idle message write to stderr, with the tick.\<close>

datatype event =
    Forked nat
  | Exited nat
  | Acquired nat nat
  | Released nat nat
  | Ran nat
  | Blocked nat
  | Idle

text \<open>Every \<^verbatim>\<open>assert\<close> of the source and every undefined access is an error value.\<close>

datatype error =
    Assert_exit_detached
  | Assert_exit_holding
  | Assert_exit_pending
  | Assert_owner
  | Assert_waiter_status
  | Assert_current_detached
  | Resource_out_of_range
  | Null_dereference
  | Use_after_free

record state =
  procs :: "nat \<Rightarrow> process"
  freed :: "nat set"
  readyqueue :: "nat list"
  forkqueue :: "nat list"
  resources :: "resource list"
  current :: "nat option"
  ticks :: "32 word"
  ticks_cnt :: "32 word"
  stderr_log :: "(32 word \<times> event) list"

section \<open>Intrusive lists\<close>

text \<open>
  Modelled from the spec: \<^verbatim>\<open>list_head.h\<close> is missing.  Every process carries one
  list node (\<^verbatim>\<open>p->list\<close>) that links it into the fork queue, the ready queue or a
  resource's wait collection.  A queue is the sequence of processes linked from its head,
  in order; \<^verbatim>\<open>list_add_tail\<close> appends, \<^verbatim>\<open>list_add\<close> inserts at the front,
  \<^verbatim>\<open>list_del_init\<close> unlinks the node from wherever it is linked, and
  \<^verbatim>\<open>list_empty(&p->list)\<close> says that the node is linked nowhere.

  The sequences stand for the lists as long as every node is linked at most once.
  \<^verbatim>\<open>list_add_tail\<close> and \<^verbatim>\<open>list_add\<close> of a node that is still linked overwrite its
  two pointers while its old neighbours keep pointing to it; what is left is no sequence
  any more, and a later traversal need not end.  \<open>list_add_tail\<close> and \<open>list_add\<close>
  below add the node to the sequence in that case too, so that the process occurs twice:
  beyond such a step the model says nothing about the program.  The predicate
  \<open>queues_wf\<close> of the section on queue membership excludes these states; it holds along
  every simulation under the four schedulers of the default protocol, and the statements
  on \<^verbatim>\<open>srtf_schedule\<close> and \<^verbatim>\<open>rr_schedule\<close> show that the node they add is detached.
\<close>

datatype list_head = Readyqueue | Forkqueue | Waitqueue nat

definition list_empty_node :: "nat \<Rightarrow> state \<Rightarrow> bool" where
  "list_empty_node p s =
     (p \<notin> set (readyqueue s) \<and> p \<notin> set (forkqueue s) \<and>
      list_all (\<lambda>r. p \<notin> set (waitqueue r)) (resources s))"

definition list_del_init :: "nat \<Rightarrow> state \<Rightarrow> state" where
  "list_del_init p s =
     s\<lparr>readyqueue := removeAll p (readyqueue s),
       forkqueue := removeAll p (forkqueue s),
       resources := map (\<lambda>r. r\<lparr>waitqueue := removeAll p (waitqueue r)\<rparr>) (resources s)\<rparr>"

fun list_add_tail :: "nat \<Rightarrow> list_head \<Rightarrow> state \<Rightarrow> state" where
  "list_add_tail p Readyqueue s = s\<lparr>readyqueue := readyqueue s @ [p]\<rparr>"
| "list_add_tail p Forkqueue s = s\<lparr>forkqueue := forkqueue s @ [p]\<rparr>"
| "list_add_tail p (Waitqueue r) s =
     s\<lparr>resources := (resources s)
        [r := (resources s ! r)\<lparr>waitqueue := waitqueue (resources s ! r) @ [p]\<rparr>]\<rparr>"

fun list_add :: "nat \<Rightarrow> list_head \<Rightarrow> state \<Rightarrow> state" where
  "list_add p Readyqueue s = s\<lparr>readyqueue := p # readyqueue s\<rparr>"
| "list_add p Forkqueue s = s\<lparr>forkqueue := p # forkqueue s\<rparr>"
| "list_add p (Waitqueue r) s =
     s\<lparr>resources := (resources s)
        [r := (resources s ! r)\<lparr>waitqueue := p # waitqueue (resources s ! r)\<rparr>]\<rparr>"

definition list_move_tail :: "nat \<Rightarrow> list_head \<Rightarrow> state \<Rightarrow> state" where
  "list_move_tail p h s = list_add_tail p h (list_del_init p s)"

text \<open>The last entry a \<^verbatim>\<open>list_for_each\<close> loop leaves in its cursor variable.\<close>

definition last_entry :: "nat list \<Rightarrow> nat option" where
  "last_entry q = (if q = [] then None else Some (last q))"

section \<open>Field updates\<close>

definition set_status :: "nat \<Rightarrow> process_status \<Rightarrow> state \<Rightarrow> state" where
  "set_status p st s = s\<lparr>procs := (procs s)(p := (procs s p)\<lparr>status := st\<rparr>)\<rparr>"

definition set_prio :: "nat \<Rightarrow> nat \<Rightarrow> state \<Rightarrow> state" where
  "set_prio p v s = s\<lparr>procs := (procs s)(p := (procs s p)\<lparr>prio := v\<rparr>)\<rparr>"

definition set_age :: "nat \<Rightarrow> nat \<Rightarrow> state \<Rightarrow> state" where
  "set_age p v s = s\<lparr>procs := (procs s)(p := (procs s p)\<lparr>age := v\<rparr>)\<rparr>"

definition set_to_acquire :: "nat \<Rightarrow> resource_schedule list \<Rightarrow> state \<Rightarrow> state" where
  "set_to_acquire p l s =
     s\<lparr>procs := (procs s)(p := (procs s p)\<lparr>resources_to_acquire := l\<rparr>)\<rparr>"

definition set_holding :: "nat \<Rightarrow> resource_schedule list \<Rightarrow> state \<Rightarrow> state" where
  "set_holding p l s =
     s\<lparr>procs := (procs s)(p := (procs s p)\<lparr>resources_holding := l\<rparr>)\<rparr>"

definition set_owner :: "nat \<Rightarrow> nat option \<Rightarrow> state \<Rightarrow> state" where
  "set_owner r v s = s\<lparr>resources := (resources s)[r := (resources s ! r)\<lparr>owner := v\<rparr>]\<rparr>"

definition print_event :: "event \<Rightarrow> state \<Rightarrow> state" where
  "print_event e s = s\<lparr>stderr_log := stderr_log s @ [(ticks s, e)]\<rparr>"

section \<open>Default FCFS resource protocol\<close>

text \<open>
  \<^verbatim>\<open>fcfs_acquire\<close> and \<^verbatim>\<open>fcfs_release\<close> (identical in both C files).  The source
  computes \<^verbatim>\<open>resources + resource_id\<close> without a bounds check; an index outside the
  table is the error \<open>Resource_out_of_range\<close>.
\<close>

definition fcfs_acquire :: "nat \<Rightarrow> state \<Rightarrow> error + (bool \<times> state)" where
  "fcfs_acquire rid s =
     (if length (resources s) \<le> rid then Inl Resource_out_of_range
      else case owner (resources s ! rid) of
        None \<Rightarrow> Inr (True, set_owner rid (current s) s)
      | Some ow \<Rightarrow>
          (case current s of
             None \<Rightarrow> Inl Null_dereference
           | Some c \<Rightarrow>
               Inr (False, list_add_tail c (Waitqueue rid) (set_status c PROCESS_WAIT s))))"

definition fcfs_release :: "nat \<Rightarrow> state \<Rightarrow> error + state" where
  "fcfs_release rid s =
     (if length (resources s) \<le> rid then Inl Resource_out_of_range
      else if owner (resources s ! rid) \<noteq> current s then Inl Assert_owner
      else
        let s1 = set_owner rid None s in
        case waitqueue (resources s1 ! rid) of
          [] \<Rightarrow> Inr s1
        | waiter # rest \<Rightarrow>
            if status (procs s1 waiter) \<noteq> PROCESS_WAIT then Inl Assert_waiter_status
            else Inr (list_add_tail waiter Readyqueue
                       (set_status waiter PROCESS_READY (list_del_init waiter s1))))"

section \<open>Schedulers\<close>

text \<open>
  The label \<^verbatim>\<open>pick_next\<close> of \<^verbatim>\<open>fifo_schedule\<close> and of \<^verbatim>\<open>rr_schedule\<close>: the
  first entry of the ready queue is detached and returned, \<^verbatim>\<open>NULL\<close> when the queue
  is empty.
\<close>

definition pick_first :: "state \<Rightarrow> nat option \<times> state" where
  "pick_first s =
     (case readyqueue s of
        [] \<Rightarrow> (None, s)
      | nxt # rest \<Rightarrow> (Some nxt, list_del_init nxt s))"

definition fifo_schedule :: "state \<Rightarrow> error + (nat option \<times> state)" where
  "fifo_schedule s =
     (case current s of
        None \<Rightarrow> Inr (pick_first s)
      | Some c \<Rightarrow>
          if status (procs s c) = PROCESS_WAIT then Inr (pick_first s)
          else if age (procs s c) < lifespan (procs s c) then Inr (Some c, s)
          else Inr (pick_first s))"

text \<open>The loop \<^verbatim>\<open>if (min > prc->lifespan) min = prc->lifespan\<close> over a queue.\<close>

definition min_lifespan :: "nat \<Rightarrow> nat list \<Rightarrow> state \<Rightarrow> nat" where
  "min_lifespan m q s =
     foldl (\<lambda>m p. if m > lifespan (procs s p) then lifespan (procs s p) else m) m q"

text \<open>
  The tail of \<^verbatim>\<open>sjf_schedule\<close> and \<^verbatim>\<open>srtf_schedule\<close> after \<^verbatim>\<open>pick_next\<close>: \<open>cnt\<close>
  and \<open>m\<close> are the values of \<^verbatim>\<open>cnt\<close> and \<^verbatim>\<open>min\<close> on entry.  When no entry has the
  lifespan \<open>m\<close>, the function falls out of the loops and returns the cursor \<^verbatim>\<open>prc\<close>
  (the last entry visited), still linked.
\<close>

definition shortest_pick_next :: "nat \<Rightarrow> nat \<Rightarrow> state \<Rightarrow> nat option \<times> state" where
  "shortest_pick_next cnt m s =
     (if cnt + length (readyqueue s) \<noteq> 0 then
        let m' = min_lifespan m (readyqueue s) s in
        case find (\<lambda>p. m' = lifespan (procs s p)) (readyqueue s) of
          Some prc \<Rightarrow> (Some prc, list_del_init prc s)
        | None \<Rightarrow> (last_entry (readyqueue s), s)
      else (last_entry (readyqueue s), s))"

definition sjf_schedule :: "state \<Rightarrow> error + (nat option \<times> state)" where
  "sjf_schedule s =
     (case current s of
        None \<Rightarrow> Inr (shortest_pick_next 0 1000 s)
      | Some c \<Rightarrow>
          if status (procs s c) = PROCESS_WAIT then Inr (shortest_pick_next 0 1000 s)
          else if age (procs s c) < lifespan (procs s c) then Inr (Some c, s)
          else Inr (shortest_pick_next 0 1000 s))"

text \<open>
  \<^verbatim>\<open>cur_remain = current->lifespan - current->age\<close>: the difference of the two
  \<^verbatim>\<open>unsigned int\<close> fields wraps at 32 bits and is stored in the \<^verbatim>\<open>int\<close> variable
  \<^verbatim>\<open>cur_remain\<close>, so that it is read as a signed number in the comparison
  \<^verbatim>\<open>min < cur_remain\<close> of two \<^verbatim>\<open>int\<close>s.  \<open>remaining_word\<close> is the 32-bit
  difference, \<open>sint\<close> its signed reading.
\<close>

definition remaining_word :: "process \<Rightarrow> 32 word" where
  "remaining_word p = word_of_nat (lifespan p) - word_of_nat (age p)"

definition srtf_schedule :: "state \<Rightarrow> error + (nat option \<times> state)" where
  "srtf_schedule s =
     (let cnt = length (readyqueue s);
          m = (if cnt \<noteq> 0 then min_lifespan 1000 (readyqueue s) s else 1000)
      in case current s of
        None \<Rightarrow> Inr (shortest_pick_next cnt m s)
      | Some c \<Rightarrow>
          if status (procs s c) = PROCESS_WAIT then Inr (shortest_pick_next cnt m s)
          else if age (procs s c) < lifespan (procs s c) then
            (let cur_remain = sint (remaining_word (procs s c)) in
             if int m < cur_remain then
               (case find (\<lambda>p. m = lifespan (procs s p)) (readyqueue s) of
                  Some prc \<Rightarrow>
                    Inr (Some prc, list_add c Readyqueue (list_del_init prc s))
                | None \<Rightarrow> Inr (shortest_pick_next cnt m s))
             else Inr (Some c, s))
          else Inr (shortest_pick_next cnt m s))"

text \<open>
  \<^verbatim>\<open>rr_schedule\<close> counts its calls in the global \<^verbatim>\<open>int ticks_cnt\<close>, which starts at
  \<open>-1\<close>, and preempts when the counter equals the clock.  The increment is taken
  modulo \<open>2^32\<close>, as on the usual two's complement targets (in C the overflow of the
  \<^verbatim>\<open>int\<close> after \<open>2^31\<close> calls is undefined).
\<close>

definition rr_schedule :: "state \<Rightarrow> error + (nat option \<times> state)" where
  "rr_schedule s0 =
     (let s = s0\<lparr>ticks_cnt := ticks_cnt s0 + 1\<rparr> in
      case current s of
        None \<Rightarrow> Inr (pick_first s)
      | Some c \<Rightarrow>
          if status (procs s c) = PROCESS_WAIT then Inr (pick_first s)
          else if age (procs s c) < lifespan (procs s c) then
            (if ticks s = ticks_cnt s then
               (case readyqueue s of
                  [] \<Rightarrow> Inr (Some c, s)
                | prc # rest \<Rightarrow>
                    Inr (Some prc, list_add_tail c Readyqueue (list_del_init prc s)))
             else Inr (Some c, s))
          else Inr (pick_first s))"


section \<open>Priority family\<close>

text \<open>The loop \<^verbatim>\<open>if (max < prc->prio) max = prc->prio\<close> over a queue.\<close>

definition max_prio :: "nat \<Rightarrow> nat list \<Rightarrow> state \<Rightarrow> nat" where
  "max_prio m q s =
     foldl (\<lambda>m p. if m < prio (procs s p) then prio (procs s p) else m) m q"

definition prio_acquire :: "nat \<Rightarrow> state \<Rightarrow> error + (bool \<times> state)" where
  "prio_acquire rid s =
     (if length (resources s) \<le> rid then Inl Resource_out_of_range
      else case current s of
        None \<Rightarrow> Inl Null_dereference
      | Some c \<Rightarrow>
          (case owner (resources s ! rid) of
             None \<Rightarrow>
               Inr (True, list_add_tail c Readyqueue
                            (set_status c PROCESS_WAIT (set_owner rid (Some c) s)))
           | Some ow \<Rightarrow>
               Inr (False, list_add_tail c (Waitqueue rid) (set_status c PROCESS_WAIT s))))"

text \<open>
  The part the three priority releases share after ownership is cleared: the first waiter
  whose priority equals the maximum is woken.
\<close>

definition wake_highest :: "nat \<Rightarrow> state \<Rightarrow> error + state" where
  "wake_highest rid s =
     (let wq = waitqueue (resources s ! rid) in
      if wq \<noteq> [] then
        let m = max_prio 0 wq s in
        case find (\<lambda>p. prio (procs s p) = m) wq of
          None \<Rightarrow> Inl Null_dereference
        | Some waiter \<Rightarrow>
            if status (procs s waiter) \<noteq> PROCESS_WAIT then Inl Assert_waiter_status
            else Inr (list_add_tail waiter Readyqueue
                       (set_status waiter PROCESS_READY (list_del_init waiter s)))
      else Inr s)"

definition prio_release :: "nat \<Rightarrow> state \<Rightarrow> error + state" where
  "prio_release rid s =
     (if length (resources s) \<le> rid then Inl Resource_out_of_range
      else if owner (resources s ! rid) \<noteq> current s then Inl Assert_owner
      else wake_highest rid (set_owner rid None s))"

definition prio_pick_next :: "state \<Rightarrow> nat option \<times> state" where
  "prio_pick_next s =
     (if length (readyqueue s) \<noteq> 0 then
        let m = max_prio 0 (readyqueue s) s in
        case find (\<lambda>p. m = prio (procs s p)) (readyqueue s) of
          Some prc \<Rightarrow> (Some prc, list_del_init prc s)
        | None \<Rightarrow> (last_entry (readyqueue s), s)
      else (last_entry (readyqueue s), s))"

definition prio_schedule :: "state \<Rightarrow> error + (nat option \<times> state)" where
  "prio_schedule s =
     (case current s of
        None \<Rightarrow> Inr (prio_pick_next s)
      | Some c \<Rightarrow>
          if status (procs s c) = PROCESS_WAIT then Inr (prio_pick_next s)
          else if age (procs s c) < lifespan (procs s c) then Inr (Some c, s)
          else Inr (prio_pick_next s))"

subsection \<open>Priority with aging\<close>

text \<open>
  The second loop after \<^verbatim>\<open>pick_next\<close> in \<^verbatim>\<open>pa_schedule\<close>: the first entry whose
  priority equals \<open>m\<close> becomes \<^verbatim>\<open>next\<close> (\<^verbatim>\<open>flag\<close> is set exactly when \<^verbatim>\<open>next\<close>
  is), every other entry below \<open>MAX_PRIO\<close> is aged by one.
\<close>

fun pa_scan :: "nat \<Rightarrow> nat \<Rightarrow> nat list \<Rightarrow> nat option \<Rightarrow> state \<Rightarrow> nat option \<times> state" where
  "pa_scan MAX_PRIO m [] nxt s = (nxt, s)"
| "pa_scan MAX_PRIO m (p # ps) nxt s =
     (if m = prio (procs s p) \<and> nxt = None then pa_scan MAX_PRIO m ps (Some p) s
      else if prio (procs s p) < MAX_PRIO
        then pa_scan MAX_PRIO m ps nxt (set_prio p (prio (procs s p) + 1) s)
      else pa_scan MAX_PRIO m ps nxt s)"

text \<open>The aging loop on the path that keeps the running process.\<close>

fun pa_age_all :: "nat \<Rightarrow> nat list \<Rightarrow> state \<Rightarrow> state" where
  "pa_age_all MAX_PRIO [] s = s"
| "pa_age_all MAX_PRIO (p # ps) s =
     (if prio (procs s p) < MAX_PRIO
        then pa_age_all MAX_PRIO ps (set_prio p (prio (procs s p) + 1) s)
      else pa_age_all MAX_PRIO ps s)"

definition pa_pick_next :: "nat \<Rightarrow> nat \<Rightarrow> nat \<Rightarrow> state \<Rightarrow> error + (nat option \<times> state)" where
  "pa_pick_next MAX_PRIO cnt m s =
     (if cnt \<noteq> 0 then
        let m' = max_prio m (readyqueue s) s in
        case pa_scan MAX_PRIO m' (readyqueue s) None s of
          (None, s1) \<Rightarrow> Inl Null_dereference
        | (Some nxt, s1) \<Rightarrow>
            Inr (Some nxt, set_prio nxt (prio_orig (procs s1 nxt)) (list_del_init nxt s1))
      else Inr (None, s))"

definition pa_schedule :: "nat \<Rightarrow> state \<Rightarrow> error + (nat option \<times> state)" where
  "pa_schedule MAX_PRIO s =
     (let cnt = length (readyqueue s) in
      case current s of
        None \<Rightarrow> pa_pick_next MAX_PRIO cnt 0 s
      | Some c \<Rightarrow>
          if status (procs s c) = PROCESS_WAIT then pa_pick_next MAX_PRIO cnt 0 s
          else if age (procs s c) < lifespan (procs s c) then
            (if cnt \<noteq> 0 then
               let m = max_prio 0 (readyqueue s) s in
               if prio (procs s c) \<le> m
                 then pa_pick_next MAX_PRIO cnt m (list_add_tail c Readyqueue s)
               else
                 let s1 = pa_age_all MAX_PRIO (readyqueue s) s in
                 Inr (Some c, set_prio c (prio_orig (procs s1 c)) s1)
             else Inr (Some c, set_prio c (prio_orig (procs s c)) s))
          else pa_pick_next MAX_PRIO cnt 0 s)"

subsection \<open>Priority ceiling protocol\<close>

definition pcp_acquire :: "nat \<Rightarrow> nat \<Rightarrow> state \<Rightarrow> error + (bool \<times> state)" where
  "pcp_acquire MAX_PRIO rid s =
     (if length (resources s) \<le> rid then Inl Resource_out_of_range
      else case current s of
        None \<Rightarrow> Inl Null_dereference
      | Some c \<Rightarrow>
          (case owner (resources s ! rid) of
             None \<Rightarrow>
               Inr (True, list_add_tail c Readyqueue
                            (set_status c PROCESS_WAIT
                              (set_prio c MAX_PRIO (set_owner rid (Some c) s))))
           | Some ow \<Rightarrow>
               Inr (False, list_add_tail c (Waitqueue rid) (set_status c PROCESS_WAIT s))))"

text \<open>
  \<^verbatim>\<open>pcp_release\<close> and \<^verbatim>\<open>pip_release\<close> have the same body: after the assertion the
  owner's priority is set back to \<^verbatim>\<open>prio_orig\<close>, then ownership is cleared and the
  highest waiter is woken.
\<close>

definition pcp_release :: "nat \<Rightarrow> state \<Rightarrow> error + state" where
  "pcp_release rid s =
     (if length (resources s) \<le> rid then Inl Resource_out_of_range
      else if owner (resources s ! rid) \<noteq> current s then Inl Assert_owner
      else case owner (resources s ! rid) of
        None \<Rightarrow> Inl Null_dereference
      | Some ow \<Rightarrow>
          wake_highest rid (set_owner rid None (set_prio ow (prio_orig (procs s ow)) s)))"

text \<open>The scan of \<^verbatim>\<open>pcp_schedule\<close>: as \<open>pa_scan\<close>, without aging.\<close>

definition pcp_pick_next :: "nat \<Rightarrow> nat \<Rightarrow> state \<Rightarrow> error + (nat option \<times> state)" where
  "pcp_pick_next cnt m s =
     (if cnt \<noteq> 0 then
        let m' = max_prio m (readyqueue s) s in
        case find (\<lambda>p. m' = prio (procs s p)) (readyqueue s) of
          None \<Rightarrow> Inl Null_dereference
        | Some nxt \<Rightarrow>
            Inr (Some nxt, set_prio nxt (prio_orig (procs s nxt)) (list_del_init nxt s))
      else Inr (None, s))"

definition pcp_schedule :: "state \<Rightarrow> error + (nat option \<times> state)" where
  "pcp_schedule s =
     (let cnt = length (readyqueue s) in
      case current s of
        None \<Rightarrow> pcp_pick_next cnt 0 s
      | Some c \<Rightarrow>
          if status (procs s c) = PROCESS_WAIT then pcp_pick_next cnt 0 s
          else if age (procs s c) < lifespan (procs s c) then
            (if cnt \<noteq> 0 then
               let m = max_prio 0 (readyqueue s) s in
               if prio (procs s c) \<le> m
                 then pcp_pick_next cnt m (list_add_tail c Readyqueue s)
               else Inr (Some c, set_prio c (prio_orig (procs s c)) s)
             else Inr (Some c, set_prio c (prio_orig (procs s c)) s))
          else pcp_pick_next cnt 0 s)"

subsection \<open>Priority inheritance protocol\<close>

definition pip_acquire :: "nat \<Rightarrow> state \<Rightarrow> error + (bool \<times> state)" where
  "pip_acquire rid s =
     (if length (resources s) \<le> rid then Inl Resource_out_of_range
      else case current s of
        None \<Rightarrow> Inl Null_dereference
      | Some c \<Rightarrow>
          (case owner (resources s ! rid) of
             None \<Rightarrow>
               Inr (True, list_add_tail c Readyqueue
                            (set_status c PROCESS_WAIT (set_owner rid (Some c) s)))
           | Some ow \<Rightarrow>
               let s1 = (if prio (procs s ow) < prio (procs s c)
                         then set_prio ow (prio (procs s c)) s else s)
               in Inr (False, list_add_tail c (Waitqueue rid) (set_status c PROCESS_WAIT s1))))"

definition pip_release :: "nat \<Rightarrow> state \<Rightarrow> error + state" where
  "pip_release rid s =
     (if length (resources s) \<le> rid then Inl Resource_out_of_range
      else if owner (resources s ! rid) \<noteq> current s then Inl Assert_owner
      else case owner (resources s ! rid) of
        None \<Rightarrow> Inl Null_dereference
      | Some ow \<Rightarrow>
          wake_highest rid (set_owner rid None (set_prio ow (prio_orig (procs s ow)) s)))"


section \<open>The scheduler interface\<close>

text \<open>
  \<^verbatim>\<open>struct scheduler\<close> of the missing \<^verbatim>\<open>sched.h\<close>, with the members the framework
  calls.  \<^verbatim>\<open>forked\<close> and \<^verbatim>\<open>exiting\<close> are optional callbacks (tested against
  \<^verbatim>\<open>NULL\<close> before the call); none of the eight schedulers sets them.
\<close>

record scheduler =
  name :: string
  acquire :: "nat \<Rightarrow> state \<Rightarrow> error + (bool \<times> state)"
  release :: "nat \<Rightarrow> state \<Rightarrow> error + state"
  schedule :: "state \<Rightarrow> error + (nat option \<times> state)"
  forked :: "(nat \<Rightarrow> state \<Rightarrow> state) option"
  exiting :: "(nat \<Rightarrow> state \<Rightarrow> state) option"

definition fifo_scheduler :: scheduler where
  "fifo_scheduler =
     \<lparr>name = ''FIFO'', acquire = fcfs_acquire, release = fcfs_release,
      schedule = fifo_schedule, forked = None, exiting = None\<rparr>"

definition sjf_scheduler :: scheduler where
  "sjf_scheduler =
     \<lparr>name = ''Shortest-Job First'', acquire = fcfs_acquire, release = fcfs_release,
      schedule = sjf_schedule, forked = None, exiting = None\<rparr>"

definition srtf_scheduler :: scheduler where
  "srtf_scheduler =
     \<lparr>name = ''Shortest Remaining Time First'', acquire = fcfs_acquire,
      release = fcfs_release, schedule = srtf_schedule, forked = None, exiting = None\<rparr>"

definition rr_scheduler :: scheduler where
  "rr_scheduler =
     \<lparr>name = ''Round-Robin'', acquire = fcfs_acquire, release = fcfs_release,
      schedule = rr_schedule, forked = None, exiting = None\<rparr>"

definition prio_scheduler :: scheduler where
  "prio_scheduler =
     \<lparr>name = ''Priority'', acquire = prio_acquire, release = prio_release,
      schedule = prio_schedule, forked = None, exiting = None\<rparr>"

definition pa_scheduler :: "nat \<Rightarrow> scheduler" where
  "pa_scheduler MAX_PRIO =
     \<lparr>name = ''Priority + aging'', acquire = prio_acquire, release = prio_release,
      schedule = pa_schedule MAX_PRIO, forked = None, exiting = None\<rparr>"

definition pcp_scheduler :: "nat \<Rightarrow> scheduler" where
  "pcp_scheduler MAX_PRIO =
     \<lparr>name = ''Priority + PCP Protocol'', acquire = pcp_acquire MAX_PRIO,
      release = pcp_release, schedule = pcp_schedule, forked = None, exiting = None\<rparr>"

definition pip_scheduler :: scheduler where
  "pip_scheduler =
     \<lparr>name = ''Priority + PIP Protocol'', acquire = pip_acquire, release = pip_release,
      schedule = pcp_schedule, forked = None, exiting = None\<rparr>"

text \<open>The eight schedulers, for a given \<open>MAX_PRIO\<close>.\<close>

definition schedulers :: "nat \<Rightarrow> scheduler list" where
  "schedulers MAX_PRIO =
     [fifo_scheduler, sjf_scheduler, srtf_scheduler, rr_scheduler, prio_scheduler,
      pa_scheduler MAX_PRIO, pcp_scheduler MAX_PRIO, pip_scheduler]"

text \<open>The four of them that use the default FCFS protocol.\<close>

definition fcfs_schedulers :: "scheduler list" where
  "fcfs_schedulers = [fifo_scheduler, sjf_scheduler, srtf_scheduler, rr_scheduler]"

section \<open>The simulation engine\<close>

text \<open>
  \<^verbatim>\<open>__fork_on_schedule\<close>: the loop visits the fork queue as it stood on entry (the
  \<^verbatim>\<open>_safe\<close> iterator keeps the successor before the body moves the entry).  The count
  it returns is not used by the caller and is left out.
\<close>

fun fork_loop :: "scheduler \<Rightarrow> nat list \<Rightarrow> state \<Rightarrow> state" where
  "fork_loop sc [] s = s"
| "fork_loop sc (p # ps) s =
     (if starts_at (procs s p) \<le> unat (ticks s) then
        let s1 = list_move_tail p Readyqueue s;
            s2 = set_status p PROCESS_READY s1;
            s3 = print_event (Forked (pid (procs s2 p))) s2;
            s4 = (case forked sc of None \<Rightarrow> s3 | Some hook \<Rightarrow> hook p s3)
        in fork_loop sc ps s4
      else fork_loop sc ps s)"

definition fork_on_schedule :: "scheduler \<Rightarrow> state \<Rightarrow> state" where
  "fork_on_schedule sc s = fork_loop sc (forkqueue s) s"

text \<open>\<^verbatim>\<open>__exit_process\<close>; \<^verbatim>\<open>free(p)\<close> puts the address into \<open>freed\<close>.\<close>

definition exit_process :: "scheduler \<Rightarrow> nat \<Rightarrow> state \<Rightarrow> error + state" where
  "exit_process sc p s =
     (if \<not> list_empty_node p s then Inl Assert_exit_detached
      else if resources_holding (procs s p) \<noteq> [] then Inl Assert_exit_holding
      else if resources_to_acquire (procs s p) \<noteq> [] then Inl Assert_exit_pending
      else
        let s1 = (case exiting sc of None \<Rightarrow> s | Some hook \<Rightarrow> hook p s);
            s2 = print_event (Exited (pid (procs s1 p))) s1
        in Inr (s2\<lparr>freed := insert p (freed s2)\<rparr>))"

text \<open>
  \<^verbatim>\<open>__run_current_acquire\<close> for the running process \<open>c\<close>.  \<open>kept\<close> holds the
  entries already passed and left pending, the list argument the entries still to visit;
  the pending list of the process is \<open>kept @ rest\<close> throughout.  An acquired entry moves
  to the tail of the held list.
\<close>

fun acquire_loop ::
  "scheduler \<Rightarrow> nat \<Rightarrow> resource_schedule list \<Rightarrow> resource_schedule list \<Rightarrow> state
     \<Rightarrow> error + (bool \<times> state)" where
  "acquire_loop sc c kept [] s = Inr (True, s)"
| "acquire_loop sc c kept (rs # rest) s =
     (if at rs = int (age (procs s c)) then
        (case acquire sc (resource_id rs) s of
           Inl e \<Rightarrow> Inl e
         | Inr (True, s1) \<Rightarrow>
             let s2 = set_to_acquire c (kept @ rest) s1;
                 s3 = set_holding c (resources_holding (procs s2 c) @ [rs]) s2;
                 s4 = print_event (Acquired (pid (procs s3 c)) (resource_id rs)) s3
             in acquire_loop sc c kept rest s4
         | Inr (False, s1) \<Rightarrow> Inr (False, s1))
      else acquire_loop sc c (kept @ [rs]) rest s)"

definition run_current_acquire :: "scheduler \<Rightarrow> nat \<Rightarrow> state \<Rightarrow> error + (bool \<times> state)" where
  "run_current_acquire sc c s = acquire_loop sc c [] (resources_to_acquire (procs s c)) s"

text \<open>
  \<^verbatim>\<open>__run_current_release\<close>: every held entry is counted down; the one that reaches
  zero is released, reported and removed.  The held list of the process is
  \<open>kept @ rest\<close> with the counted-down entries in \<open>kept\<close>.
\<close>

fun release_loop ::
  "scheduler \<Rightarrow> nat \<Rightarrow> resource_schedule list \<Rightarrow> resource_schedule list \<Rightarrow> state
     \<Rightarrow> error + state" where
  "release_loop sc c kept [] s = Inr s"
| "release_loop sc c kept (rs # rest) s =
     (let rs' = rs\<lparr>duration := duration rs - 1\<rparr>;
          s1 = set_holding c (kept @ rs' # rest) s
      in if duration rs' = 0 then
           (case release sc (resource_id rs') s1 of
              Inl e \<Rightarrow> Inl e
            | Inr s2 \<Rightarrow>
                let s3 = print_event (Released (pid (procs s2 c)) (resource_id rs')) s2;
                    s4 = set_holding c (kept @ rest) s3
                in release_loop sc c kept rest s4)
         else release_loop sc c (kept @ [rs']) rest s1)"

definition run_current_release :: "scheduler \<Rightarrow> nat \<Rightarrow> state \<Rightarrow> error + state" where
  "run_current_release sc c s = release_loop sc c [] (resources_holding (procs s c)) s"

text \<open>
  The body of \<^verbatim>\<open>__do_simulation\<close>, one round of the loop.  \<open>retire_previous\<close> is the
  block \<^verbatim>\<open>if (prev) { ... }\<close>, \<open>execute_current\<close> the \<^verbatim>\<open>else\<close> branch that runs the
  selected process.  Reading through the pointer of a record that has been freed is the
  error \<open>Use_after_free\<close>.
\<close>

definition retire_previous :: "scheduler \<Rightarrow> nat option \<Rightarrow> state \<Rightarrow> error + state" where
  "retire_previous sc prev s =
     (case prev of
        None \<Rightarrow> Inr s
      | Some p \<Rightarrow>
          let s1 = (if status (procs s p) = PROCESS_RUNNING
                    then set_status p PROCESS_READY s else s)
          in if age (procs s1 p) = lifespan (procs s1 p)
             then exit_process sc p (set_status p PROCESS_EXIT s1)
             else Inr s1)"

definition execute_current :: "scheduler \<Rightarrow> nat \<Rightarrow> state \<Rightarrow> error + state" where
  "execute_current sc c s =
     (if c \<in> freed s then Inl Use_after_free
      else
        let s1 = set_status c PROCESS_RUNNING s in
        if \<not> list_empty_node c s1 then Inl Assert_current_detached
        else case run_current_acquire sc c s1 of
          Inl e \<Rightarrow> Inl e
        | Inr (True, s2) \<Rightarrow>
            let s3 = print_event (Ran (pid (procs s2 c))) s2;
                s4 = set_age c (age (procs s3 c) + 1) s3
            in run_current_release sc c s4
        | Inr (False, s2) \<Rightarrow> Inr (print_event (Blocked (pid (procs s2 c))) s2))"

datatype outcome = Abort error | Finished state | Continue state

definition do_tick :: "scheduler \<Rightarrow> state \<Rightarrow> outcome" where
  "do_tick sc s =
     (let s1 = fork_on_schedule sc s;
          prev = current s1
      in case schedule sc s1 of
        Inl e \<Rightarrow> Abort e
      | Inr (nxt, s2) \<Rightarrow>
          (case retire_previous sc prev (s2\<lparr>current := nxt\<rparr>) of
             Inl e \<Rightarrow> Abort e
           | Inr s3 \<Rightarrow>
               (case current s3 of
                  None \<Rightarrow>
                    if readyqueue s3 = [] \<and> forkqueue s3 = [] then Finished s3
                    else Continue ((print_event Idle s3)\<lparr>ticks := ticks s3 + 1\<rparr>)
                | Some c \<Rightarrow>
                    (case execute_current sc c s3 of
                       Inl e \<Rightarrow> Abort e
                     | Inr s4 \<Rightarrow> Continue (s4\<lparr>ticks := ticks s4 + 1\<rparr>)))))"

text \<open>
  The loop \<^verbatim>\<open>while (true)\<close> has no bound in the source; \<open>do_simulation sc n\<close> runs at
  most \<open>n\<close> rounds and answers \<open>Continue\<close> when the simulation is still going then.
\<close>

fun do_simulation :: "scheduler \<Rightarrow> nat \<Rightarrow> state \<Rightarrow> outcome" where
  "do_simulation sc 0 s = Continue s"
| "do_simulation sc (Suc n) s =
     (case do_tick sc s of
        Continue s' \<Rightarrow> do_simulation sc n s'
      | Abort e \<Rightarrow> Abort e
      | Finished s' \<Rightarrow> Finished s')"

text \<open>
  \<^verbatim>\<open>__initialize\<close> followed by \<^verbatim>\<open>__load_script\<close>: empty ready queue, \<open>NR_RESOURCES\<close>
  free resources with empty wait collections, and the processes of the script at the
  addresses \<open>0, 1, ...\<close>, linked into the fork queue in script order.  \<open>new_process\<close> is
  the record a \<^verbatim>\<open>process ... end\<close> block builds (\<^verbatim>\<open>memset\<close> to zero, then the
  properties given).
\<close>

definition new_process ::
  "nat \<Rightarrow> nat \<Rightarrow> nat \<Rightarrow> nat \<Rightarrow> resource_schedule list \<Rightarrow> process" where
  "new_process i life pr start plan =
     \<lparr>pid = i, status = PROCESS_READY, age = 0, lifespan = life, prio = pr, prio_orig = pr,
      starts_at = start, resources_to_acquire = plan, resources_holding = []\<rparr>"

definition initial_state :: "nat \<Rightarrow> process list \<Rightarrow> state" where
  "initial_state NR_RESOURCES ps =
     \<lparr>procs = (\<lambda>i. if i < length ps then ps ! i else new_process 0 0 0 0 []),
      freed = {},
      readyqueue = [],
      forkqueue = map fst (enumerate 0 ps),
      resources = replicate NR_RESOURCES \<lparr>owner = None, waitqueue = []\<rparr>,
      current = None,
      ticks = 0,
      ticks_cnt = - 1,
      stderr_log = []\<rparr>"

text \<open>The pids of the \<^verbatim>\<open>Ran\<close> events with their ticks: who ran when.\<close>

definition run_order :: "state \<Rightarrow> (32 word \<times> nat) list" where
  "run_order s = concat (map (\<lambda>(t, e). case e of Ran i \<Rightarrow> [(t, i)] | _ \<Rightarrow> []) (stderr_log s))"


section \<open>Contention on one resource\<close>

text \<open>
  A driver for the default protocol on the resource \<open>rid\<close>: \<open>Request c\<close> lets the
  process \<open>c\<close> run and ask for the resource (the engine asserts that the process it runs
  is detached), \<open>Release_by_owner\<close> lets the present owner, if any, run and release it.
  The result lists the requesters that were refused, in the order of their requests.
\<close>

datatype fcfs_op = Request nat | Release_by_owner

fun fcfs_contention :: "nat \<Rightarrow> fcfs_op list \<Rightarrow> state \<Rightarrow> error + (nat list \<times> state)" where
  "fcfs_contention rid [] s = Inr ([], s)"
| "fcfs_contention rid (Request c # ops) s =
     (if \<not> list_empty_node c s then Inl Assert_current_detached
      else case fcfs_acquire rid (s\<lparr>current := Some c\<rparr>) of
        Inl e \<Rightarrow> Inl e
      | Inr (ok, s1) \<Rightarrow>
          (case fcfs_contention rid ops s1 of
             Inl e \<Rightarrow> Inl e
           | Inr (blocked, s2) \<Rightarrow> Inr (if ok then blocked else c # blocked, s2)))"
| "fcfs_contention rid (Release_by_owner # ops) s =
     (case owner (resources s ! rid) of
        None \<Rightarrow> fcfs_contention rid ops s
      | Some ow \<Rightarrow>
          (case fcfs_release rid (s\<lparr>current := Some ow\<rparr>) of
             Inl e \<Rightarrow> Inl e
           | Inr s1 \<Rightarrow> fcfs_contention rid ops s1))"

section \<open>Auxiliary predicates and sample states\<close>

text \<open>
  What no scheduler callback touches: the running slot, the log, the clock, the set of
  freed records, the size of the resource table and, for every process, its age, its
  identity, its lifespan and its two plan lists.  \<open>mono_frame\<close> is the weaker relation
  that also holds across the engine's own steps within a tick, where the log grows and
  ages and plan lists change.
\<close>

definition plan_frame :: "state \<Rightarrow> state \<Rightarrow> bool" where
  "plan_frame s s' =
     (current s' = current s \<and> stderr_log s' = stderr_log s \<and> ticks s' = ticks s \<and>
      freed s' = freed s \<and> length (resources s') = length (resources s) \<and>
      (\<forall>p. age (procs s' p) = age (procs s p) \<and> pid (procs s' p) = pid (procs s p) \<and>
           lifespan (procs s' p) = lifespan (procs s p) \<and>
           resources_to_acquire (procs s' p) = resources_to_acquire (procs s p) \<and>
           resources_holding (procs s' p) = resources_holding (procs s p)))"

definition mono_frame :: "state \<Rightarrow> state \<Rightarrow> bool" where
  "mono_frame s s' =
     (current s' = current s \<and> ticks s' = ticks s \<and>
      freed s' = freed s \<and> length (resources s') = length (resources s) \<and>
      set (stderr_log s) \<subseteq> set (stderr_log s') \<and>
      (\<forall>p. pid (procs s' p) = pid (procs s p) \<and> lifespan (procs s' p) = lifespan (procs s p)))"

text \<open>
  Two processes and two resources: the process at address 0 runs and is due to acquire
  resource 1 (free), resource 0 (owned by the process at address 1) and resource 1 again.
\<close>

definition contended :: state where
  "contended =
     (initial_state 2
        [new_process 1 3 0 0 [\<lparr>resource_id = 1, at = 0, duration = 1\<rparr>,
                              \<lparr>resource_id = 0, at = 0, duration = 1\<rparr>,
                              \<lparr>resource_id = 1, at = 0, duration = 2\<rparr>],
         new_process 2 3 0 0 []])
     \<lparr>forkqueue := [], readyqueue := [1], current := Some 0,
      resources := [\<lparr>owner = Some 1, waitqueue = []\<rparr>, \<lparr>owner = None, waitqueue = []\<rparr>]\<rparr>"

text \<open>Three detached processes and one free resource.\<close>

definition three_idle :: state where
  "three_idle =
     (initial_state 1 [new_process 1 3 0 0 [], new_process 2 3 0 0 [], new_process 3 3 0 0 []])
     \<lparr>forkqueue := [], current := Some 0\<rparr>"

text \<open>
  Priority inversion: the process at address 0 (priority 5) runs and asks for resource 0,
  which the process at address 1 (priority 1) owns.  In \<open>inversion_blocked\<close> the request
  has been refused under the inheritance protocol and the owner runs.
\<close>

definition inversion :: state where
  "inversion =
     (initial_state 1
        [new_process 1 3 5 0 [\<lparr>resource_id = 0, at = 0, duration = 1\<rparr>],
         new_process 2 3 1 0 []])
     \<lparr>forkqueue := [], current := Some 0,
      resources := [\<lparr>owner = Some 1, waitqueue = []\<rparr>]\<rparr>"

definition inversion_blocked :: state where
  "inversion_blocked =
     (case pip_acquire 0 inversion of
        Inr (ok, s) \<Rightarrow> s\<lparr>current := Some 1\<rparr>
      | Inl e \<Rightarrow> inversion)"

text \<open>
  One process of priority 1 and lifespan 4 that takes resource 0 at age 0 for three ticks.
\<close>

definition holder :: state where
  "holder = initial_state 1 [new_process 1 4 1 0 [\<lparr>resource_id = 0, at = 0, duration = 3\<rparr>]]"

text \<open>
  The test at the head of the schedule functions: \<open>running s c\<close> when \<open>c\<close> ran in the
  previous tick, is not blocked and has lifetime left (the functions go on to decide
  whether it continues); \<open>no_runner s\<close> when they jump to \<^verbatim>\<open>pick_next\<close> at once.
\<close>

definition running :: "state \<Rightarrow> nat \<Rightarrow> bool" where
  "running s c =
     (current s = Some c \<and> status (procs s c) \<noteq> PROCESS_WAIT \<and>
      age (procs s c) < lifespan (procs s c))"

definition no_runner :: "state \<Rightarrow> bool" where
  "no_runner s =
     (case current s of
        None \<Rightarrow> True
      | Some c \<Rightarrow> status (procs s c) = PROCESS_WAIT \<or> lifespan (procs s c) \<le> age (procs s c))"

text \<open>
  Aging: the process at address 0 (priority 2) is running; the ready queue holds the
  processes at addresses 1 (priority 1) and 2 (priority 3).
\<close>

definition aging_three :: state where
  "aging_three =
     (initial_state 1
        [new_process 1 3 2 0 [], new_process 2 3 1 0 [], new_process 3 3 3 0 []])
     \<lparr>forkqueue := [], readyqueue := [1, 2], current := Some 0\<rparr>"

text \<open>Two jobs longer than 1000 ticks, both due at tick 0.\<close>

definition long_jobs :: state where
  "long_jobs = initial_state 1 [new_process 1 1001 0 0 [], new_process 2 2000 0 0 []]"

text \<open>
  One process of lifespan 1 that takes resource 0 at age 0 for two ticks: its lifetime ends
  while it still holds the resource.  \<open>short_job\<close> is a process of lifespan 2 without
  resources.
\<close>

definition overstay :: state where
  "overstay = initial_state 1 [new_process 1 1 0 0 [\<lparr>resource_id = 0, at = 0, duration = 2\<rparr>]]"

definition short_job :: state where
  "short_job = initial_state 1 [new_process 1 2 0 0 []]"

text \<open>The state a simulation is in after \<open>n\<close> rounds, when it is still going.\<close>

definition state_after :: "scheduler \<Rightarrow> nat \<Rightarrow> state \<Rightarrow> state option" where
  "state_after sc n s = (case do_simulation sc n s of Continue s' \<Rightarrow> Some s' | _ \<Rightarrow> None)"

text \<open>\<open>short_job\<close> after two rounds under FIFO, and a process of lifespan 0.\<close>

definition ran_twice :: state where
  "ran_twice = (case do_simulation fifo_scheduler 2 short_job of Continue s \<Rightarrow> s | _ \<Rightarrow> short_job)"

definition zero_job :: state where
  "zero_job = initial_state 1 [new_process 1 0 0 0 []]"

section \<open>Queue membership\<close>

text \<open>
  \<open>waiting s\<close> lists the entries of all wait queues.  \<open>queues_wf s\<close>: no process is linked
  twice, be it in one queue or in two.  \<open>exclusive_membership s\<close> adds that the process in
  the running slot is linked nowhere.  \<open>slot_ok s\<close> is the weaker condition the
  schedulers with the default protocol maintain: the process in the running slot is linked
  nowhere, unless it has blocked (status \<open>PROCESS_WAIT\<close>); then it is at least not in the
  ready queue or the fork queue.
\<close>

definition waiting :: "state \<Rightarrow> nat list" where
  "waiting s = concat (map waitqueue (resources s))"

definition queues_wf :: "state \<Rightarrow> bool" where
  "queues_wf s = distinct (readyqueue s @ forkqueue s @ waiting s)"

definition exclusive_membership :: "state \<Rightarrow> bool" where
  "exclusive_membership s =
     (queues_wf s \<and> (case current s of None \<Rightarrow> True | Some c \<Rightarrow> list_empty_node c s))"

definition slot_ok :: "state \<Rightarrow> bool" where
  "slot_ok s =
     (case current s of
        None \<Rightarrow> True
      | Some c \<Rightarrow>
          (status (procs s c) \<noteq> PROCESS_WAIT \<and> list_empty_node c s) \<or>
          (status (procs s c) = PROCESS_WAIT \<and> c \<notin> set (readyqueue s) \<and>
           c \<notin> set (forkqueue s)))"

text \<open>One process of priority 1 that takes resource 0 at age 0.\<close>

definition grabber :: state where
  "grabber = initial_state 1 [new_process 1 3 1 0 [\<lparr>resource_id = 0, at = 0, duration = 2\<rparr>]]"

text \<open>
  What holds of the process \<open>c\<close> while the engine runs it and no acquisition has blocked:
  the queues are well formed, \<open>c\<close> is in the running slot, marked running and detached.
\<close>

definition run_inv :: "nat \<Rightarrow> state \<Rightarrow> bool" where
  "run_inv c s =
     (queues_wf s \<and> list_empty_node c s \<and> status (procs s c) = PROCESS_RUNNING \<and>
      current s = Some c)"

text \<open>Two processes that both take resource 0 at age 0.\<close>

definition rivals :: state where
  "rivals =
     initial_state 1
       [new_process 1 3 0 0 [\<lparr>resource_id = 0, at = 0, duration = 2\<rparr>],
        new_process 2 3 0 0 [\<lparr>resource_id = 0, at = 0, duration = 1\<rparr>]]"

text \<open>
  What holds of every state a Round-Robin simulation reaches: the queues are well formed and
  the counter of \<^verbatim>\<open>rr_schedule\<close> is one behind the clock.
\<close>

definition rr_reach :: "state \<Rightarrow> bool" where
  "rr_reach s = (queues_wf s \<and> slot_ok s \<and> ticks_cnt s + 1 = ticks s)"

text \<open>Two processes of lifespan 3, both due at tick 0.\<close>

definition rr_pair :: state where
  "rr_pair = initial_state 1 [new_process 1 3 0 0 [], new_process 2 3 0 0 []]"

text \<open>
  A process of lifespan 1 that takes resource 0 for two ticks, and a job longer than 1000
  ticks that is due at tick 1.
\<close>

definition overtaken :: state where
  "overtaken =
     initial_state 1
       [new_process 1 1 0 0 [\<lparr>resource_id = 0, at = 0, duration = 2\<rparr>],
        new_process 2 2000 0 1 []]"

text \<open>
  What holds of every state a simulation under SRTF reaches: the queues are well formed
  and the process in the slot, if any, has a lifespan of at most 1000 (the schedule function
  detaches no other process).
\<close>

definition srtf_reach :: "state \<Rightarrow> bool" where
  "srtf_reach s =
     (queues_wf s \<and> slot_ok s \<and>
      (case current s of None \<Rightarrow> True | Some c \<Rightarrow> lifespan (procs s c) \<le> 1000))"

text \<open>
  A process of lifespan 5 and one of lifespan 1 that arrives at tick 2; a process of
  lifespan 2 and one of lifespan 5, both due at tick 0.
\<close>

definition srtf_pair :: state where
  "srtf_pair = initial_state 1 [new_process 1 5 0 0 [], new_process 2 1 0 2 []]"

definition srtf_keep :: state where
  "srtf_keep = initial_state 1 [new_process 1 2 0 0 [], new_process 2 5 0 0 []]"

section \<open>Verified properties\<close>

subsection \<open>Unfolding rules\<close>

lemmas upd_defs = set_status_def set_prio_def set_age_def set_owner_def set_to_acquire_def
  set_holding_def print_event_def list_del_init_def list_move_tail_def

lemmas scheduler_defs = fifo_scheduler_def sjf_scheduler_def srtf_scheduler_def
  rr_scheduler_def prio_scheduler_def pa_scheduler_def pcp_scheduler_def pip_scheduler_def

lemma sum_pair_caseD:
  "(case x of Inl e \<Rightarrow> False | Inr (b, s) \<Rightarrow> b = v \<and> P s) \<Longrightarrow> \<exists>s. x = Inr (v, s) \<and> P s"
  by (cases x) auto

lemma sum_caseD:
  "(case x of Inl e \<Rightarrow> False | Inr s \<Rightarrow> P s) \<Longrightarrow> \<exists>s. x = Inr s \<and> P s"
  by (cases x) auto

lemma list_all_nth: "list_all P xs \<Longrightarrow> i < length xs \<Longrightarrow> P (xs ! i)"
  by (simp add: list_all_length)

subsection \<open>Field updates on an explicit state\<close>

text \<open>
  The field updates written out on a state given by its components.  As code equations they
  make an evaluation update the table of processes only once the state it is applied to has
  been computed.
\<close>

lemma set_status_code [code]:
  "set_status p st \<lparr>procs = f, freed = fr, readyqueue = rq, forkqueue = fq, resources = rs,
       current = c, ticks = t, ticks_cnt = tc, stderr_log = l\<rparr> =
     \<lparr>procs = f(p := (f p)\<lparr>status := st\<rparr>), freed = fr, readyqueue = rq, forkqueue = fq,
      resources = rs, current = c, ticks = t, ticks_cnt = tc, stderr_log = l\<rparr>"
  by (simp add: set_status_def)

lemma set_prio_code [code]:
  "set_prio p v \<lparr>procs = f, freed = fr, readyqueue = rq, forkqueue = fq, resources = rs,
       current = c, ticks = t, ticks_cnt = tc, stderr_log = l\<rparr> =
     \<lparr>procs = f(p := (f p)\<lparr>prio := v\<rparr>), freed = fr, readyqueue = rq, forkqueue = fq,
      resources = rs, current = c, ticks = t, ticks_cnt = tc, stderr_log = l\<rparr>"
  by (simp add: set_prio_def)

lemma set_age_code [code]:
  "set_age p v \<lparr>procs = f, freed = fr, readyqueue = rq, forkqueue = fq, resources = rs,
       current = c, ticks = t, ticks_cnt = tc, stderr_log = l\<rparr> =
     \<lparr>procs = f(p := (f p)\<lparr>age := v\<rparr>), freed = fr, readyqueue = rq, forkqueue = fq,
      resources = rs, current = c, ticks = t, ticks_cnt = tc, stderr_log = l\<rparr>"
  by (simp add: set_age_def)

lemma set_to_acquire_code [code]:
  "set_to_acquire p v \<lparr>procs = f, freed = fr, readyqueue = rq, forkqueue = fq, resources = rs,
       current = c, ticks = t, ticks_cnt = tc, stderr_log = l\<rparr> =
     \<lparr>procs = f(p := (f p)\<lparr>resources_to_acquire := v\<rparr>), freed = fr, readyqueue = rq,
      forkqueue = fq, resources = rs, current = c, ticks = t, ticks_cnt = tc, stderr_log = l\<rparr>"
  by (simp add: set_to_acquire_def)

lemma set_holding_code [code]:
  "set_holding p v \<lparr>procs = f, freed = fr, readyqueue = rq, forkqueue = fq, resources = rs,
       current = c, ticks = t, ticks_cnt = tc, stderr_log = l\<rparr> =
     \<lparr>procs = f(p := (f p)\<lparr>resources_holding := v\<rparr>), freed = fr, readyqueue = rq,
      forkqueue = fq, resources = rs, current = c, ticks = t, ticks_cnt = tc, stderr_log = l\<rparr>"
  by (simp add: set_holding_def)

subsection \<open>Acquire callbacks: what they leave alone\<close>

lemma acquire_cases:
  "sc \<in> set (schedulers MAX_PRIO) \<Longrightarrow>
     acquire sc = fcfs_acquire \<or> acquire sc = prio_acquire \<or>
     acquire sc = pcp_acquire MAX_PRIO \<or> acquire sc = pip_acquire"
  by (auto simp: schedulers_def scheduler_defs)

lemma fcfs_acquire_frame: "fcfs_acquire rid s = Inr (b, s') \<Longrightarrow> plan_frame s s'"
  by (auto simp: fcfs_acquire_def plan_frame_def upd_defs split: if_splits option.splits)

lemma prio_acquire_frame: "prio_acquire rid s = Inr (b, s') \<Longrightarrow> plan_frame s s'"
  by (auto simp: prio_acquire_def plan_frame_def upd_defs split: if_splits option.splits)

lemma pcp_acquire_frame: "pcp_acquire M rid s = Inr (b, s') \<Longrightarrow> plan_frame s s'"
  by (auto simp: pcp_acquire_def plan_frame_def upd_defs split: if_splits option.splits)

lemma pip_acquire_frame: "pip_acquire rid s = Inr (b, s') \<Longrightarrow> plan_frame s s'"
  by (auto simp: pip_acquire_def plan_frame_def upd_defs Let_def split: if_splits option.splits)

lemma acquire_frame:
  "sc \<in> set (schedulers MAX_PRIO) \<Longrightarrow> acquire sc rid s = Inr (b, s') \<Longrightarrow> plan_frame s s'"
  using acquire_cases[of sc MAX_PRIO]
  by (auto dest: fcfs_acquire_frame prio_acquire_frame pcp_acquire_frame pip_acquire_frame)






subsection \<open>A tick whose acquisition blocks\<close>




subsection \<open>The default protocol is first come, first served\<close>

lemma fcfs_contention_fifo:
  assumes "fcfs_contention rid ops s = Inr (blocked, s')"
    and "rid < length (resources s)"
    and "distinct (waitqueue (resources s ! rid))"
    and "set (waitqueue (resources s ! rid)) \<inter> set (readyqueue s) = {}"
  shows "\<exists>woken. readyqueue s' = readyqueue s @ woken \<and>
           waitqueue (resources s ! rid) @ blocked = woken @ waitqueue (resources s' ! rid)"
  using assms
proof (induction rid ops s arbitrary: blocked rule: fcfs_contention.induct)
  case (1 rid s)
  then show ?case by simp
next
  case (2 rid c ops s)
  from "2.prems"(1) have det: "list_empty_node c s"
    by (simp split: if_splits)
  with "2.prems"(2) have cwq: "c \<notin> set (waitqueue (resources s ! rid))"
    and crq: "c \<notin> set (readyqueue s)"
    by (auto simp: list_empty_node_def dest: list_all_nth)
  from "2.prems"(1) det obtain ok s1 bl where
    acq: "fcfs_acquire rid (s\<lparr>current := Some c\<rparr>) = Inr (ok, s1)"
    and rec: "fcfs_contention rid ops s1 = Inr (bl, s')"
    and bl: "blocked = (if ok then bl else c # bl)"
    by (auto split: sum.splits prod.splits)
  show ?case
  proof (cases "owner (resources s ! rid)")
    case None
    with acq "2.prems"(2) have s1: "s1 = set_owner rid (Some c) (s\<lparr>current := Some c\<rparr>)"
      and ok: "ok"
      by (auto simp: fcfs_acquire_def)
    have "\<exists>woken. readyqueue s' = readyqueue s1 @ woken \<and>
           waitqueue (resources s1 ! rid) @ bl = woken @ waitqueue (resources s' ! rid)"
      using "2.IH"[OF _ acq refl rec] det "2.prems" s1
      by (simp add: upd_defs)
    with s1 ok bl "2.prems"(2) show ?thesis by (simp add: upd_defs)
  next
    case (Some ow)
    with acq "2.prems"(2) have
      s1: "s1 = list_add_tail c (Waitqueue rid)
                  (set_status c PROCESS_WAIT (s\<lparr>current := Some c\<rparr>))"
      and ok: "\<not> ok"
      by (auto simp: fcfs_acquire_def)
    have "\<exists>woken. readyqueue s' = readyqueue s1 @ woken \<and>
           waitqueue (resources s1 ! rid) @ bl = woken @ waitqueue (resources s' ! rid)"
      using "2.IH"[OF _ acq refl rec] det "2.prems" s1 cwq crq
      by (simp add: upd_defs)
    with s1 ok bl "2.prems"(2) show ?thesis by (simp add: upd_defs)
  qed
next
  case (3 rid ops s)
  show ?case
  proof (cases "owner (resources s ! rid)")
    case None
    with 3 show ?thesis by simp
  next
    case (Some ow)
    with "3.prems"(1) obtain s1 where
      rel: "fcfs_release rid (s\<lparr>current := Some ow\<rparr>) = Inr s1"
      and rec: "fcfs_contention rid ops s1 = Inr (blocked, s')"
      by (auto split: sum.splits)
    show ?thesis
    proof (cases "waitqueue (resources s ! rid)")
      case Nil
      with rel "3.prems"(2) Some have s1: "s1 = set_owner rid None (s\<lparr>current := Some ow\<rparr>)"
        by (simp add: fcfs_release_def upd_defs)
      have "\<exists>woken. readyqueue s' = readyqueue s1 @ woken \<and>
           waitqueue (resources s1 ! rid) @ blocked = woken @ waitqueue (resources s' ! rid)"
        using "3.IH"(2)[OF Some rel rec] "3.prems" s1 Nil
        by (simp add: upd_defs)
      with s1 "3.prems"(2) Nil show ?thesis by (simp add: upd_defs)
    next
      case (Cons w ws)
      with rel "3.prems"(2) Some have
        s1: "s1 = list_add_tail w Readyqueue
                    (set_status w PROCESS_READY
                      (list_del_init w (set_owner rid None (s\<lparr>current := Some ow\<rparr>))))"
        by (simp add: fcfs_release_def upd_defs split: if_splits)
      from Cons "3.prems"(3,4) have w: "w \<notin> set ws" "w \<notin> set (readyqueue s)"
        "distinct ws" "set ws \<inter> set (readyqueue s) = {}"
        by auto
      have "\<exists>woken. readyqueue s' = readyqueue s1 @ woken \<and>
           waitqueue (resources s1 ! rid) @ blocked = woken @ waitqueue (resources s' ! rid)"
        using "3.IH"(2)[OF Some rel rec] "3.prems" s1 Cons w
        by (simp add: upd_defs)
      with s1 "3.prems"(2) Cons w show ?thesis by (auto simp add: upd_defs)
    qed
  qed
qed

text \<open>
  Claim C3.  For a resource of the table and a running process \<open>c\<close>:
  \<^verbatim>\<open>fcfs_acquire\<close> on a free resource makes \<open>c\<close> the owner and returns true, changing
  no process and no queue; on an owned resource it sets the status of \<open>c\<close> to waiting,
  appends \<open>c\<close> to the tail of the resource's wait queue and returns false.
  \<^verbatim>\<open>fcfs_release\<close> fails its assertion unless \<open>c\<close> is the owner; otherwise it clears
  the ownership and, when the wait queue is not empty, wakes exactly its first entry (which
  must be waiting): the entry leaves the wait queue, becomes ready and goes to the tail of
  the ready queue.  Consequently, for any sequence of requests and releases on the resource
  starting with an empty wait queue, the processes woken so far followed by those still
  waiting are exactly the processes refused, in the order they were refused.
\<close>

theorem fcfs_protocol:
  assumes rid: "rid < length (resources s)" and cur: "current s = Some c"
  shows
  "(owner (resources s ! rid) = None \<longrightarrow>
      (\<exists>s'. fcfs_acquire rid s = Inr (True, s') \<and> owner (resources s' ! rid) = Some c \<and>
            procs s' = procs s \<and> readyqueue s' = readyqueue s \<and>
            map waitqueue (resources s') = map waitqueue (resources s))) \<and>
   (\<forall>ow. owner (resources s ! rid) = Some ow \<longrightarrow>
      (\<exists>s'. fcfs_acquire rid s = Inr (False, s') \<and> status (procs s' c) = PROCESS_WAIT \<and>
            waitqueue (resources s' ! rid) = waitqueue (resources s ! rid) @ [c] \<and>
            owner (resources s' ! rid) = Some ow \<and> readyqueue s' = readyqueue s)) \<and>
   (owner (resources s ! rid) \<noteq> Some c \<longrightarrow> fcfs_release rid s = Inl Assert_owner) \<and>
   (owner (resources s ! rid) = Some c \<and> waitqueue (resources s ! rid) = [] \<longrightarrow>
      (\<exists>s'. fcfs_release rid s = Inr s' \<and> owner (resources s' ! rid) = None \<and>
            readyqueue s' = readyqueue s \<and> procs s' = procs s)) \<and>
   (\<forall>w ws. owner (resources s ! rid) = Some c \<and> waitqueue (resources s ! rid) = w # ws \<and>
        status (procs s w) \<noteq> PROCESS_WAIT \<longrightarrow>
      fcfs_release rid s = Inl Assert_waiter_status) \<and>
   (\<forall>w ws. owner (resources s ! rid) = Some c \<and> waitqueue (resources s ! rid) = w # ws \<and>
        status (procs s w) = PROCESS_WAIT \<and> w \<notin> set ws \<and> w \<notin> set (readyqueue s) \<longrightarrow>
      (\<exists>s'. fcfs_release rid s = Inr s' \<and> owner (resources s' ! rid) = None \<and>
            waitqueue (resources s' ! rid) = ws \<and> status (procs s' w) = PROCESS_READY \<and>
            readyqueue s' = readyqueue s @ [w])) \<and>
   (\<forall>ops blocked s'. waitqueue (resources s ! rid) = [] \<and>
        fcfs_contention rid ops s = Inr (blocked, s') \<longrightarrow>
      (\<exists>woken. readyqueue s' = readyqueue s @ woken \<and>
               blocked = woken @ waitqueue (resources s' ! rid)))"
proof (intro conjI allI impI)
  assume "owner (resources s ! rid) = None"
  with rid cur show "\<exists>s'. fcfs_acquire rid s = Inr (True, s') \<and>
      owner (resources s' ! rid) = Some c \<and> procs s' = procs s \<and>
      readyqueue s' = readyqueue s \<and> map waitqueue (resources s') = map waitqueue (resources s)"
    by (simp add: fcfs_acquire_def set_owner_def map_update list_update_same_conv)
next
  fix ow assume "owner (resources s ! rid) = Some ow"
  with rid cur show "\<exists>s'. fcfs_acquire rid s = Inr (False, s') \<and>
      status (procs s' c) = PROCESS_WAIT \<and>
      waitqueue (resources s' ! rid) = waitqueue (resources s ! rid) @ [c] \<and>
      owner (resources s' ! rid) = Some ow \<and> readyqueue s' = readyqueue s"
    by (simp add: fcfs_acquire_def upd_defs)
next
  assume "owner (resources s ! rid) \<noteq> Some c"
  with rid cur show "fcfs_release rid s = Inl Assert_owner"
    by (simp add: fcfs_release_def)
next
  assume "owner (resources s ! rid) = Some c \<and> waitqueue (resources s ! rid) = []"
  with rid cur show "\<exists>s'. fcfs_release rid s = Inr s' \<and> owner (resources s' ! rid) = None \<and>
      readyqueue s' = readyqueue s \<and> procs s' = procs s"
    by (simp add: fcfs_release_def upd_defs)
next
  fix w ws
  assume "owner (resources s ! rid) = Some c \<and> waitqueue (resources s ! rid) = w # ws \<and>
          status (procs s w) \<noteq> PROCESS_WAIT"
  with rid cur show "fcfs_release rid s = Inl Assert_waiter_status"
    by (simp add: fcfs_release_def upd_defs)
next
  fix w ws
  assume "owner (resources s ! rid) = Some c \<and> waitqueue (resources s ! rid) = w # ws \<and>
          status (procs s w) = PROCESS_WAIT \<and> w \<notin> set ws \<and> w \<notin> set (readyqueue s)"
  with rid cur show "\<exists>s'. fcfs_release rid s = Inr s' \<and> owner (resources s' ! rid) = None \<and>
      waitqueue (resources s' ! rid) = ws \<and> status (procs s' w) = PROCESS_READY \<and>
      readyqueue s' = readyqueue s @ [w]"
    by (simp add: fcfs_release_def upd_defs)
next
  fix ops blocked s'
  assume h: "waitqueue (resources s ! rid) = [] \<and> fcfs_contention rid ops s = Inr (blocked, s')"
  then have "\<exists>woken. readyqueue s' = readyqueue s @ woken \<and>
      waitqueue (resources s ! rid) @ blocked = woken @ waitqueue (resources s' ! rid)"
    using rid by (intro fcfs_contention_fifo[of rid ops s blocked s']) simp_all
  with h show "\<exists>woken. readyqueue s' = readyqueue s @ woken \<and>
      blocked = woken @ waitqueue (resources s' ! rid)"
    by simp
qed

theorem fcfs_protocol_witness:
  "0 < length (resources contended) \<and> current contended = Some 0 \<and>
   owner (resources contended ! 0) = Some 1 \<and>
   (\<exists>s'. fcfs_acquire 0 contended = Inr (False, s') \<and> status (procs s' 0) = PROCESS_WAIT \<and>
         waitqueue (resources s' ! 0) = [0]) \<and>
   (\<exists>s'. fcfs_contention 0 [Request 0, Request 1, Request 2, Release_by_owner] three_idle
            = Inr ([1, 2], s') \<and>
         readyqueue s' = [1] \<and> waitqueue (resources s' ! 0) = [2])"
proof -
  have h: "0 < length (resources contended)" "current contended = Some 0"
    "owner (resources contended ! 0) = Some 1" "waitqueue (resources contended ! 0) = []"
    by (simp_all add: contended_def initial_state_def)
  from fcfs_protocol[OF h(1,2)] h(3,4)
  have "\<exists>s'. fcfs_acquire 0 contended = Inr (False, s') \<and> status (procs s' 0) = PROCESS_WAIT \<and>
         waitqueue (resources s' ! 0) = [0]"
    by auto
  moreover
  have "case fcfs_contention 0 [Request 0, Request 1, Request 2, Release_by_owner] three_idle of
          Inl e \<Rightarrow> False
        | Inr (blocked, s') \<Rightarrow> blocked = [1, 2] \<and> readyqueue s' = [1] \<and>
            waitqueue (resources s' ! 0) = [2]"
    by code_simp
  then have "\<exists>s'. fcfs_contention 0 [Request 0, Request 1, Request 2, Release_by_owner] three_idle
            = Inr ([1, 2], s') \<and>
         readyqueue s' = [1] \<and> waitqueue (resources s' ! 0) = [2]"
    by (rule sum_pair_caseD)
  ultimately show ?thesis using h by simp
qed

subsection \<open>Maximum priority and the first entry that has it\<close>

lemma max_prio_ge_start: "m \<le> max_prio m q s"
  unfolding max_prio_def by (induction q arbitrary: m) (auto intro: order_trans less_imp_le)

lemma max_prio_ge: "p \<in> set q \<Longrightarrow> prio (procs s p) \<le> max_prio m q s"
  unfolding max_prio_def
proof (induction q arbitrary: m)
  case Nil
  then show ?case by simp
next
  case (Cons x q)
  show ?case
  proof (cases "p = x")
    case True
    have "prio (procs s x) \<le> max_prio (if m < prio (procs s x) then prio (procs s x) else m) q s"
      by (rule order_trans[OF _ max_prio_ge_start]) simp
    with True show ?thesis by (simp add: max_prio_def)
  next
    case False
    with Cons show ?thesis by simp
  qed
qed

lemma max_prio_attained:
  "max_prio m q s = m \<or> (\<exists>p\<in>set q. max_prio m q s = prio (procs s p))"
  unfolding max_prio_def
proof (induction q arbitrary: m)
  case Nil
  then show ?case by simp
next
  case (Cons x q)
  from Cons[of "if m < prio (procs s x) then prio (procs s x) else m"]
  show ?case by (auto split: if_splits)
qed

lemma max_prio_first:
  assumes "\<forall>p\<in>set post. prio (procs s p) \<le> prio (procs s w)"
    and "\<forall>p\<in>set pre. prio (procs s p) < prio (procs s w)"
    and "m \<le> prio (procs s w)"
  shows "max_prio m (pre @ w # post) s = prio (procs s w)"
proof (rule antisym)
  show "prio (procs s w) \<le> max_prio m (pre @ w # post) s"
    by (rule max_prio_ge) simp
  from max_prio_attained[of m "pre @ w # post" s] assms
  show "max_prio m (pre @ w # post) s \<le> prio (procs s w)"
    by (auto dest: less_imp_le)
qed

lemma find_first:
  "\<forall>p\<in>set pre. \<not> P p \<Longrightarrow> P w \<Longrightarrow> find P (pre @ w # post) = Some w"
  by (induction pre) auto

lemma find_split:
  "find P q = Some w \<Longrightarrow> \<exists>pre post. q = pre @ w # post \<and> (\<forall>p\<in>set pre. \<not> P p) \<and> P w"
proof (induction q)
  case Nil
  then show ?case by simp
next
  case (Cons x q)
  show ?case
  proof (cases "P x")
    case True
    with Cons.prems have "x = w" by simp
    with True show ?thesis by (intro exI[of _ "[]"] exI[of _ q]) simp
  next
    case False
    with Cons obtain pre post where "q = pre @ w # post" "\<forall>p\<in>set pre. \<not> P p" "P w"
      by auto
    with False show ?thesis by (intro exI[of _ "x # pre"] exI[of _ post]) simp
  qed
qed

subsection \<open>Waking the highest waiter\<close>

lemma wake_highest_first:
  assumes rid: "rid < length (resources s)"
    and wq: "waitqueue (resources s ! rid) = pre @ w # post"
    and pre: "\<forall>p\<in>set pre. prio (procs s p) < prio (procs s w)"
    and post: "\<forall>p\<in>set post. prio (procs s p) \<le> prio (procs s w)"
    and st: "status (procs s w) = PROCESS_WAIT"
    and once: "w \<notin> set pre" "w \<notin> set post" "w \<notin> set (readyqueue s)"
  shows "\<exists>s'. wake_highest rid s = Inr s' \<and>
           waitqueue (resources s' ! rid) = pre @ post \<and>
           readyqueue s' = readyqueue s @ [w] \<and>
           status (procs s' w) = PROCESS_READY \<and>
           (\<forall>p. prio (procs s' p) = prio (procs s p)) \<and>
           (\<forall>p. p \<noteq> w \<longrightarrow> procs s' p = procs s p) \<and>
           map owner (resources s') = map owner (resources s)"
proof -
  have m: "max_prio 0 (pre @ w # post) s = prio (procs s w)"
    using pre post by (intro max_prio_first) simp_all
  have f: "find (\<lambda>p. prio (procs s p) = prio (procs s w)) (pre @ w # post) = Some w"
    using pre by (intro find_first) auto
  show ?thesis
    using rid wq st once m f
    by (simp add: wake_highest_def Let_def upd_defs o_def)
qed

lemma wake_highest_empty:
  "waitqueue (resources s ! rid) = [] \<Longrightarrow> wake_highest rid s = Inr s"
  by (simp add: wake_highest_def)


subsection \<open>Priority inheritance\<close>

lemma restore_then_wake:
  assumes rid: "rid < length (resources s)"
    and wq: "waitqueue (resources s ! rid) = pre @ w # post"
    and pre: "\<forall>p\<in>set pre. prio (procs s p) < prio (procs s w)"
    and post: "\<forall>p\<in>set post. prio (procs s p) \<le> prio (procs s w)"
    and st: "status (procs s w) = PROCESS_WAIT"
    and once: "w \<notin> set pre" "w \<notin> set post" "w \<notin> set (readyqueue s)"
    and c: "c \<notin> set (pre @ w # post)"
  shows "\<exists>s'. wake_highest rid (set_owner rid None (set_prio c (prio_orig (procs s c)) s)) = Inr s' \<and>
           prio (procs s' c) = prio_orig (procs s c) \<and>
           owner (resources s' ! rid) = None \<and>
           waitqueue (resources s' ! rid) = pre @ post \<and>
           readyqueue s' = readyqueue s @ [w] \<and>
           status (procs s' w) = PROCESS_READY \<and>
           (\<forall>p. p \<noteq> c \<longrightarrow> prio (procs s' p) = prio (procs s p))"
proof -
  let ?s1 = "set_owner rid None (set_prio c (prio_orig (procs s c)) s)"
  have p1: "p \<noteq> c \<Longrightarrow> procs ?s1 p = procs s p" for p
    by (simp add: upd_defs)
  have a: "rid < length (resources ?s1)" "waitqueue (resources ?s1 ! rid) = pre @ w # post"
    "readyqueue ?s1 = readyqueue s" "owner (resources ?s1 ! rid) = None"
    "prio (procs ?s1 c) = prio_orig (procs s c)"
    using rid wq by (simp_all add: upd_defs)
  have w: "w \<noteq> c" and pc: "\<forall>p\<in>set pre. p \<noteq> c" "\<forall>p\<in>set post. p \<noteq> c"
    using c by auto
  have b: "\<forall>p\<in>set pre. prio (procs ?s1 p) < prio (procs ?s1 w)"
    "\<forall>p\<in>set post. prio (procs ?s1 p) \<le> prio (procs ?s1 w)"
    "status (procs ?s1 w) = PROCESS_WAIT"
    using pre post st w pc by (simp_all add: p1)
  from wake_highest_first[OF a(1,2) b once(1,2)] once(3) a(3)
  obtain s' where s': "wake_highest rid ?s1 = Inr s'"
    "waitqueue (resources s' ! rid) = pre @ post"
    "readyqueue s' = readyqueue ?s1 @ [w]"
    "status (procs s' w) = PROCESS_READY"
    "\<forall>p. prio (procs s' p) = prio (procs ?s1 p)"
    "map owner (resources s') = map owner (resources ?s1)"
    by auto
  from s'(6) rid have "owner (resources s' ! rid) = owner (resources ?s1 ! rid)"
    by (metis a(1) length_map nth_map)
  with s' a show ?thesis by (simp add: p1)
qed

text \<open>
  Claim C9.  For a resource of the table and a running process \<open>c\<close>: when
  \<^verbatim>\<open>pip_acquire\<close> finds the resource owned, it returns false and the owner's priority
  becomes the requester's if it was strictly lower (and stays as it was otherwise); no other
  process changes priority (no propagation) and no baseline changes; \<open>c\<close> waits at the
  tail of the wait queue.  \<^verbatim>\<open>pip_release\<close> by the owner sets the owner's priority to its
  baseline whatever it was, clears the ownership and wakes the first waiter of maximal
  priority: with the wait queue \<open>pre @ w # post\<close>, every entry of \<open>pre\<close> strictly
  below \<open>w\<close> and no entry of \<open>post\<close> above it, \<open>w\<close> becomes ready and moves to the
  tail of the ready queue.
\<close>

theorem pip_protocol:
  assumes rid: "rid < length (resources s)" and cur: "current s = Some c"
  shows
  "(\<forall>ow. owner (resources s ! rid) = Some ow \<longrightarrow>
      (\<exists>s'. pip_acquire rid s = Inr (False, s') \<and>
            prio (procs s' ow) =
              (if prio (procs s ow) < prio (procs s c) then prio (procs s c)
               else prio (procs s ow)) \<and>
            (\<forall>p. p \<noteq> ow \<longrightarrow> prio (procs s' p) = prio (procs s p)) \<and>
            (\<forall>p. prio_orig (procs s' p) = prio_orig (procs s p)) \<and>
            status (procs s' c) = PROCESS_WAIT \<and>
            waitqueue (resources s' ! rid) = waitqueue (resources s ! rid) @ [c] \<and>
            map owner (resources s') = map owner (resources s) \<and>
            readyqueue s' = readyqueue s)) \<and>
   (owner (resources s ! rid) \<noteq> Some c \<longrightarrow> pip_release rid s = Inl Assert_owner) \<and>
   (owner (resources s ! rid) = Some c \<and> waitqueue (resources s ! rid) = [] \<longrightarrow>
      (\<exists>s'. pip_release rid s = Inr s' \<and> prio (procs s' c) = prio_orig (procs s c) \<and>
            owner (resources s' ! rid) = None \<and> readyqueue s' = readyqueue s)) \<and>
   (\<forall>pre w post.
      owner (resources s ! rid) = Some c \<and> waitqueue (resources s ! rid) = pre @ w # post \<and>
      (\<forall>p\<in>set pre. prio (procs s p) < prio (procs s w)) \<and>
      (\<forall>p\<in>set post. prio (procs s p) \<le> prio (procs s w)) \<and>
      status (procs s w) = PROCESS_WAIT \<and> w \<notin> set pre \<and> w \<notin> set post \<and>
      w \<notin> set (readyqueue s) \<and> c \<notin> set (pre @ w # post) \<longrightarrow>
      (\<exists>s'. pip_release rid s = Inr s' \<and> prio (procs s' c) = prio_orig (procs s c) \<and>
            owner (resources s' ! rid) = None \<and>
            waitqueue (resources s' ! rid) = pre @ post \<and>
            readyqueue s' = readyqueue s @ [w] \<and>
            status (procs s' w) = PROCESS_READY \<and>
            (\<forall>p. p \<noteq> c \<longrightarrow> prio (procs s' p) = prio (procs s p))))"
proof (intro conjI allI impI)
  fix ow assume "owner (resources s ! rid) = Some ow"
  with rid cur show "\<exists>s'. pip_acquire rid s = Inr (False, s') \<and>
            prio (procs s' ow) =
              (if prio (procs s ow) < prio (procs s c) then prio (procs s c)
               else prio (procs s ow)) \<and>
            (\<forall>p. p \<noteq> ow \<longrightarrow> prio (procs s' p) = prio (procs s p)) \<and>
            (\<forall>p. prio_orig (procs s' p) = prio_orig (procs s p)) \<and>
            status (procs s' c) = PROCESS_WAIT \<and>
            waitqueue (resources s' ! rid) = waitqueue (resources s ! rid) @ [c] \<and>
            map owner (resources s') = map owner (resources s) \<and>
            readyqueue s' = readyqueue s"
    by (simp add: pip_acquire_def upd_defs Let_def map_update list_update_same_conv)
next
  assume "owner (resources s ! rid) \<noteq> Some c"
  with rid cur show "pip_release rid s = Inl Assert_owner"
    by (simp add: pip_release_def)
next
  assume "owner (resources s ! rid) = Some c \<and> waitqueue (resources s ! rid) = []"
  with rid cur show "\<exists>s'. pip_release rid s = Inr s' \<and>
      prio (procs s' c) = prio_orig (procs s c) \<and>
      owner (resources s' ! rid) = None \<and> readyqueue s' = readyqueue s"
    by (simp add: pip_release_def wake_highest_def upd_defs)
next
  fix pre w post
  assume h: "owner (resources s ! rid) = Some c \<and>
      waitqueue (resources s ! rid) = pre @ w # post \<and>
      (\<forall>p\<in>set pre. prio (procs s p) < prio (procs s w)) \<and>
      (\<forall>p\<in>set post. prio (procs s p) \<le> prio (procs s w)) \<and>
      status (procs s w) = PROCESS_WAIT \<and> w \<notin> set pre \<and> w \<notin> set post \<and>
      w \<notin> set (readyqueue s) \<and> c \<notin> set (pre @ w # post)"
  then have rel: "pip_release rid s =
      wake_highest rid (set_owner rid None (set_prio c (prio_orig (procs s c)) s))"
    using rid cur by (simp add: pip_release_def)
  from h have "\<exists>s'. wake_highest rid
        (set_owner rid None (set_prio c (prio_orig (procs s c)) s)) = Inr s' \<and>
      prio (procs s' c) = prio_orig (procs s c) \<and>
      owner (resources s' ! rid) = None \<and>
      waitqueue (resources s' ! rid) = pre @ post \<and>
      readyqueue s' = readyqueue s @ [w] \<and>
      status (procs s' w) = PROCESS_READY \<and>
      (\<forall>p. p \<noteq> c \<longrightarrow> prio (procs s' p) = prio (procs s p))"
    by (intro restore_then_wake[OF rid]) simp_all
  then show "\<exists>s'. pip_release rid s = Inr s' \<and> prio (procs s' c) = prio_orig (procs s c) \<and>
      owner (resources s' ! rid) = None \<and>
      waitqueue (resources s' ! rid) = pre @ post \<and>
      readyqueue s' = readyqueue s @ [w] \<and>
      status (procs s' w) = PROCESS_READY \<and>
      (\<forall>p. p \<noteq> c \<longrightarrow> prio (procs s' p) = prio (procs s p))"
    by (simp only: rel)
qed

theorem pip_protocol_witness:
  "0 < length (resources inversion) \<and> current inversion = Some 0 \<and>
   owner (resources inversion ! 0) = Some 1 \<and>
   prio (procs inversion 1) = 1 \<and> prio (procs inversion 0) = 5 \<and>
   (\<exists>s'. pip_acquire 0 inversion = Inr (False, s') \<and> prio (procs s' 1) = 5 \<and>
         prio (procs s' 0) = 5) \<and>
   current inversion_blocked = Some 1 \<and> owner (resources inversion_blocked ! 0) = Some 1 \<and>
   waitqueue (resources inversion_blocked ! 0) = [0] \<and> prio (procs inversion_blocked 1) = 5 \<and>
   (\<exists>s'. pip_release 0 inversion_blocked = Inr s' \<and> prio (procs s' 1) = 1 \<and>
         readyqueue s' = [0] \<and> waitqueue (resources s' ! 0) = [])"
proof -
  have a: "0 < length (resources inversion)" "current inversion = Some 0"
    "owner (resources inversion ! 0) = Some 1"
    "prio (procs inversion 1) = 1" "prio (procs inversion 0) = 5"
    by (simp_all add: inversion_def initial_state_def new_process_def)
  from pip_protocol[OF a(1,2)] a(3,4,5)
  have acq: "\<exists>s'. pip_acquire 0 inversion = Inr (False, s') \<and> prio (procs s' 1) = 5 \<and>
         prio (procs s' 0) = 5"
    by auto
  have b: "0 < length (resources inversion_blocked)" "current inversion_blocked = Some 1"
    "owner (resources inversion_blocked ! 0) = Some 1"
    "waitqueue (resources inversion_blocked ! 0) = [] @ 0 # []"
    "prio (procs inversion_blocked 1) = 5" "prio_orig (procs inversion_blocked 1) = 1"
    "status (procs inversion_blocked 0) = PROCESS_WAIT" "readyqueue inversion_blocked = []"
    by code_simp+
  from pip_protocol[OF b(1,2)] b(3,4,6,7,8)
  have rel: "\<exists>s'. pip_release 0 inversion_blocked = Inr s' \<and> prio (procs s' 1) = 1 \<and>
         readyqueue s' = [0] \<and> waitqueue (resources s' ! 0) = []"
    by (elim conjE allE[of _ "[]"] allE[of _ 0]) auto
  from a acq b rel show ?thesis by simp
qed

subsection \<open>Priority ceiling\<close>

lemma pcp_acquire_ceiling:
  assumes "rid < length (resources s)" "current s = Some c" "owner (resources s ! rid) = None"
  shows "\<exists>s'. pcp_acquire MAX_PRIO rid s = Inr (True, s') \<and>
           owner (resources s' ! rid) = Some c \<and> prio (procs s' c) = MAX_PRIO"
  using assms by (simp add: pcp_acquire_def upd_defs)

lemma pcp_release_restores:
  assumes "rid < length (resources s)" "current s = Some c"
    "owner (resources s ! rid) = Some c" "waitqueue (resources s ! rid) = []"
  shows "\<exists>s'. pcp_release rid s = Inr s' \<and>
           owner (resources s' ! rid) = None \<and> prio (procs s' c) = prio_orig (procs s c)"
  using assms by (simp add: pcp_release_def wake_highest_def upd_defs)

text \<open>
  Claim C8.  The two lemmas above are the part of the claim that holds: a successful
  \<^verbatim>\<open>pcp_acquire\<close> raises the new owner to \<open>MAX_PRIO\<close>, and \<^verbatim>\<open>pcp_release\<close>
  restores the baseline and clears the ownership.  The consequence the claim draws fails on
  the code: \<^verbatim>\<open>pcp_schedule\<close> sets the priority of the process it selects back to
  \<^verbatim>\<open>prio_orig\<close>.  With \<open>MAX_PRIO = 64\<close>, one process of priority 1 that takes
  resource 0 at age 0 for three ticks has priority 64 after the first tick and priority 1
  after the second, while it still owns the resource.
\<close>

theorem pcp_ceiling_lost:
  "(case do_simulation (pcp_scheduler 64) 1 holder of
      Continue s \<Rightarrow> owner (resources s ! 0) = Some 0 \<and> prio (procs s 0) = 64
    | Abort e \<Rightarrow> False | Finished s \<Rightarrow> False) \<and>
   (case do_simulation (pcp_scheduler 64) 2 holder of
      Continue s \<Rightarrow> owner (resources s ! 0) = Some 0 \<and> prio (procs s 0) = 1 \<and>
        map resource_id (resources_holding (procs s 0)) = [0] \<and>
        stderr_log s = [(0, Forked 1), (0, Acquired 1 0), (0, Ran 1), (1, Ran 1)]
    | Abort e \<Rightarrow> False | Finished s \<Rightarrow> False)"
  by code_simp

subsection \<open>Aging\<close>

lemma pa_age_all_eq:
  "distinct q \<Longrightarrow>
   pa_age_all M q s =
     s\<lparr>procs := (\<lambda>p. if p \<in> set q \<and> prio (procs s p) < M
                        then (procs s p)\<lparr>prio := prio (procs s p) + 1\<rparr> else procs s p)\<rparr>"
proof (induction q arbitrary: s)
  case Nil
  then show ?case by simp
next
  case (Cons x q)
  then have x: "x \<notin> set q" and d: "distinct q" by simp_all
  show ?case
    using x by (auto simp: Cons.IH[OF d] set_prio_def fun_eq_iff)
qed

lemma pa_scan_found:
  "pa_scan M m q (Some n) s = (Some n, pa_age_all M q s)"
  by (induction q arbitrary: s) auto

lemma pa_scan_first:
  assumes "\<forall>p\<in>set pre. prio (procs s p) \<noteq> m" "prio (procs s w) = m"
    "distinct (pre @ w # post)"
  shows "pa_scan M m (pre @ w # post) None s = (Some w, pa_age_all M (pre @ post) s)"
  using assms
proof (induction pre arbitrary: s)
  case Nil
  then show ?case by (simp add: pa_scan_found)
next
  case (Cons x pre)
  from Cons.prems have x: "prio (procs s x) \<noteq> m" "x \<noteq> w" "x \<notin> set pre" by auto
  show ?case
  proof (cases "prio (procs s x) < M")
    case True
    let ?s1 = "set_prio x (prio (procs s x) + 1) s"
    have "pa_scan M m (pre @ w # post) None ?s1 = (Some w, pa_age_all M (pre @ post) ?s1)"
      using Cons.prems x by (intro Cons.IH) (auto simp: set_prio_def)
    with x True show ?thesis by simp
  next
    case False
    have "pa_scan M m (pre @ w # post) None s = (Some w, pa_age_all M (pre @ post) s)"
      using Cons.prems x by (intro Cons.IH) auto
    with x False show ?thesis by simp
  qed
qed


lemma first_max_split:
  fixes f :: "nat \<Rightarrow> nat"
  shows "q \<noteq> [] \<Longrightarrow>
    \<exists>pre w post. q = pre @ w # post \<and> (\<forall>p\<in>set pre. f p < f w) \<and> (\<forall>p\<in>set post. f p \<le> f w)"
proof (induction q rule: rev_induct)
  case Nil
  then show ?case by simp
next
  case (snoc x q)
  show ?case
  proof (cases "q = []")
    case True
    then show ?thesis by (intro exI[of _ "[]"] exI[of _ x]) simp
  next
    case False
    with snoc obtain pre w post where
      h: "q = pre @ w # post" "\<forall>p\<in>set pre. f p < f w" "\<forall>p\<in>set post. f p \<le> f w"
      by blast
    show ?thesis
    proof (cases "f x \<le> f w")
      case True
      with h show ?thesis
        by (intro exI[of _ pre] exI[of _ w] exI[of _ "post @ [x]"]) simp
    next
      case False
      with h show ?thesis
        by (intro exI[of _ q] exI[of _ x] exI[of _ "[]"]) (auto dest: le_less_trans)
    qed
  qed
qed

lemma pa_pick_next_first:
  assumes rq: "readyqueue s = pre @ w # post" and d: "distinct (pre @ w # post)"
    and pre: "\<forall>p\<in>set pre. prio (procs s p) < prio (procs s w)"
    and post: "\<forall>p\<in>set post. prio (procs s p) \<le> prio (procs s w)"
    and m: "m \<le> prio (procs s w)" and cnt: "cnt \<noteq> 0"
  shows "\<exists>s'. pa_pick_next M cnt m s = Inr (Some w, s') \<and>
           readyqueue s' = pre @ post \<and>
           prio (procs s' w) = prio_orig (procs s w) \<and>
           (\<forall>p\<in>set (pre @ post). prio (procs s' p) =
              (if prio (procs s p) < M then prio (procs s p) + 1 else prio (procs s p))) \<and>
           (\<forall>p. p \<notin> set (pre @ w # post) \<longrightarrow> procs s' p = procs s p) \<and>
           (\<forall>p. prio_orig (procs s' p) = prio_orig (procs s p)) \<and>
           current s' = current s"
proof -
  have mx: "max_prio m (pre @ w # post) s = prio (procs s w)"
    using post pre m by (rule max_prio_first)
  have ne: "\<forall>p\<in>set pre. prio (procs s p) \<noteq> prio (procs s w)"
    using pre by auto
  have scan: "pa_scan M (prio (procs s w)) (pre @ w # post) None s
                = (Some w, pa_age_all M (pre @ post) s)"
    using ne d by (intro pa_scan_first) simp_all
  have d': "distinct (pre @ post)" and w: "w \<notin> set pre" "w \<notin> set post"
    using d by auto
  show ?thesis
    using cnt w d
    by (simp add: pa_pick_next_def mx rq scan pa_age_all_eq[OF d'] upd_defs)
qed


lemma max_prio_below:
  assumes "\<forall>p\<in>set q. prio (procs s p) < v" "q \<noteq> []"
  shows "max_prio 0 q s < v"
proof -
  from assms obtain x where "x \<in> set q" "prio (procs s x) < v"
    by (cases q) auto
  then have "0 < v" by simp
  with max_prio_attained[of 0 q s] assms(1) show ?thesis by auto
qed

text \<open>
  Claim C7.  With a well-formed ready queue (no entry twice) and \<open>M\<close> for
  \<^verbatim>\<open>MAX_PRIO\<close>, \<^verbatim>\<open>pa_schedule\<close> behaves as follows.
  \<^item> A running process \<open>c\<close> (not linked into the ready queue) is preempted whenever some
    ready process has a priority greater than or equal to its own: the first ready process
    \<open>w\<close> of maximal priority is returned, \<open>c\<close> goes to the tail of the ready queue.
  \<^item> Otherwise \<open>c\<close> is returned and the ready queue is unchanged.
  \<^item> With no runner, the first ready process of maximal priority is returned, and nothing
    when the ready queue is empty.
  In each case the priority of the process returned is set to its \<^verbatim>\<open>prio_orig\<close>, and
  every process left in the ready queue (the preempted runner included) has its priority
  raised by one if it was below \<open>M\<close> and unchanged otherwise.
\<close>

theorem pa_schedule_aging:
  assumes d: "distinct (readyqueue s)"
  shows
  "(\<forall>c. running s c \<and> c \<notin> set (readyqueue s) \<and>
        (\<exists>p\<in>set (readyqueue s). prio (procs s c) \<le> prio (procs s p)) \<longrightarrow>
      (\<exists>pre w post s'.
         readyqueue s = pre @ w # post \<and>
         (\<forall>p\<in>set pre. prio (procs s p) < prio (procs s w)) \<and>
         (\<forall>p\<in>set post. prio (procs s p) \<le> prio (procs s w)) \<and>
         pa_schedule M s = Inr (Some w, s') \<and> w \<noteq> c \<and>
         readyqueue s' = pre @ post @ [c] \<and>
         prio (procs s' w) = prio_orig (procs s w) \<and>
         (\<forall>p\<in>set (pre @ post @ [c]). prio (procs s' p) =
            (if prio (procs s p) < M then prio (procs s p) + 1 else prio (procs s p))))) \<and>
   (\<forall>c. running s c \<and> c \<notin> set (readyqueue s) \<and>
        (\<forall>p\<in>set (readyqueue s). prio (procs s p) < prio (procs s c)) \<longrightarrow>
      (\<exists>s'. pa_schedule M s = Inr (Some c, s') \<and> readyqueue s' = readyqueue s \<and>
         prio (procs s' c) = prio_orig (procs s c) \<and>
         (\<forall>p\<in>set (readyqueue s). prio (procs s' p) =
            (if prio (procs s p) < M then prio (procs s p) + 1 else prio (procs s p))))) \<and>
   (no_runner s \<and> readyqueue s \<noteq> [] \<longrightarrow>
      (\<exists>pre w post s'.
         readyqueue s = pre @ w # post \<and>
         (\<forall>p\<in>set pre. prio (procs s p) < prio (procs s w)) \<and>
         (\<forall>p\<in>set post. prio (procs s p) \<le> prio (procs s w)) \<and>
         pa_schedule M s = Inr (Some w, s') \<and>
         readyqueue s' = pre @ post \<and>
         prio (procs s' w) = prio_orig (procs s w) \<and>
         (\<forall>p\<in>set (pre @ post). prio (procs s' p) =
            (if prio (procs s p) < M then prio (procs s p) + 1 else prio (procs s p))))) \<and>
   (no_runner s \<and> readyqueue s = [] \<longrightarrow> pa_schedule M s = Inr (None, s))"
proof (intro conjI allI impI)
  fix c
  assume h: "running s c \<and> c \<notin> set (readyqueue s) \<and>
        (\<exists>p\<in>set (readyqueue s). prio (procs s c) \<le> prio (procs s p))"
  then have ne: "readyqueue s \<noteq> []" by auto
  from first_max_split[OF ne, of "\<lambda>p. prio (procs s p)"] obtain pre w post where
    sp: "readyqueue s = pre @ w # post"
      "\<forall>p\<in>set pre. prio (procs s p) < prio (procs s w)"
      "\<forall>p\<in>set post. prio (procs s p) \<le> prio (procs s w)"
    by blast
  have mx: "max_prio 0 (readyqueue s) s = prio (procs s w)"
    unfolding sp(1) using sp(3,2) by (rule max_prio_first) simp
  from h obtain p where "p \<in> set (readyqueue s)" "prio (procs s c) \<le> prio (procs s p)"
    by auto
  with max_prio_ge[of p "readyqueue s" s 0] mx have cw: "prio (procs s c) \<le> prio (procs s w)"
    by simp
  from h sp(1) have wc: "w \<noteq> c" by auto
  let ?s1 = "list_add_tail c Readyqueue s"
  have a: "readyqueue ?s1 = pre @ w # (post @ [c])" "distinct (pre @ w # (post @ [c]))"
    "\<forall>p\<in>set pre. prio (procs ?s1 p) < prio (procs ?s1 w)"
    "\<forall>p\<in>set (post @ [c]). prio (procs ?s1 p) \<le> prio (procs ?s1 w)"
    "prio (procs s w) \<le> prio (procs ?s1 w)" "length (readyqueue s) \<noteq> 0"
    using sp d h cw by auto
  from pa_pick_next_first[OF a, of M] obtain s' where
    s': "pa_pick_next M (length (readyqueue s)) (prio (procs s w)) ?s1 = Inr (Some w, s')"
      "readyqueue s' = pre @ post @ [c]"
      "prio (procs s' w) = prio_orig (procs ?s1 w)"
      "\<forall>p\<in>set (pre @ post @ [c]). prio (procs s' p) =
         (if prio (procs ?s1 p) < M then prio (procs ?s1 p) + 1 else prio (procs ?s1 p))"
    by auto
  have "pa_schedule M s = Inr (Some w, s')"
    using h ne cw s'(1) by (simp add: pa_schedule_def running_def Let_def mx)
  with sp s' wc show "\<exists>pre w post s'.
         readyqueue s = pre @ w # post \<and>
         (\<forall>p\<in>set pre. prio (procs s p) < prio (procs s w)) \<and>
         (\<forall>p\<in>set post. prio (procs s p) \<le> prio (procs s w)) \<and>
         pa_schedule M s = Inr (Some w, s') \<and> w \<noteq> c \<and>
         readyqueue s' = pre @ post @ [c] \<and>
         prio (procs s' w) = prio_orig (procs s w) \<and>
         (\<forall>p\<in>set (pre @ post @ [c]). prio (procs s' p) =
            (if prio (procs s p) < M then prio (procs s p) + 1 else prio (procs s p)))"
    by (intro exI[of _ pre] exI[of _ w] exI[of _ post] exI[of _ s']) simp
next
  fix c
  assume h: "running s c \<and> c \<notin> set (readyqueue s) \<and>
        (\<forall>p\<in>set (readyqueue s). prio (procs s p) < prio (procs s c))"
  show "\<exists>s'. pa_schedule M s = Inr (Some c, s') \<and> readyqueue s' = readyqueue s \<and>
         prio (procs s' c) = prio_orig (procs s c) \<and>
         (\<forall>p\<in>set (readyqueue s). prio (procs s' p) =
            (if prio (procs s p) < M then prio (procs s p) + 1 else prio (procs s p)))"
  proof (cases "readyqueue s = []")
    case True
    with h show ?thesis
      by (simp add: pa_schedule_def running_def set_prio_def)
  next
    case False
    with h have "max_prio 0 (readyqueue s) s < prio (procs s c)"
      by (intro max_prio_below) simp_all
    with h False show ?thesis
      by (auto simp: pa_schedule_def running_def Let_def pa_age_all_eq[OF d] set_prio_def)
  qed
next
  assume h: "no_runner s \<and> readyqueue s \<noteq> []"
  then have ne: "readyqueue s \<noteq> []" by simp
  from first_max_split[OF ne, of "\<lambda>p. prio (procs s p)"] obtain pre w post where
    sp: "readyqueue s = pre @ w # post"
      "\<forall>p\<in>set pre. prio (procs s p) < prio (procs s w)"
      "\<forall>p\<in>set post. prio (procs s p) \<le> prio (procs s w)"
    by blast
  have a: "distinct (pre @ w # post)" "0 \<le> prio (procs s w)" "length (readyqueue s) \<noteq> 0"
    using sp(1) d by simp_all
  from pa_pick_next_first[OF sp(1) a(1) sp(2,3) a(2,3), of M] obtain s' where
    s': "pa_pick_next M (length (readyqueue s)) 0 s = Inr (Some w, s')"
      "readyqueue s' = pre @ post"
      "prio (procs s' w) = prio_orig (procs s w)"
      "\<forall>p\<in>set (pre @ post). prio (procs s' p) =
         (if prio (procs s p) < M then prio (procs s p) + 1 else prio (procs s p))"
    by auto
  have "pa_schedule M s = Inr (Some w, s')"
    using h s'(1) by (auto simp: pa_schedule_def no_runner_def Let_def split: option.splits)
  with sp s' show "\<exists>pre w post s'.
         readyqueue s = pre @ w # post \<and>
         (\<forall>p\<in>set pre. prio (procs s p) < prio (procs s w)) \<and>
         (\<forall>p\<in>set post. prio (procs s p) \<le> prio (procs s w)) \<and>
         pa_schedule M s = Inr (Some w, s') \<and>
         readyqueue s' = pre @ post \<and>
         prio (procs s' w) = prio_orig (procs s w) \<and>
         (\<forall>p\<in>set (pre @ post). prio (procs s' p) =
            (if prio (procs s p) < M then prio (procs s p) + 1 else prio (procs s p)))"
    by (intro exI[of _ pre] exI[of _ w] exI[of _ post] exI[of _ s']) simp
next
  assume "no_runner s \<and> readyqueue s = []"
  then show "pa_schedule M s = Inr (None, s)"
    by (auto simp: pa_schedule_def no_runner_def pa_pick_next_def split: option.splits)
qed


theorem pa_schedule_aging_witness:
  "distinct (readyqueue aging_three) \<and> running aging_three 0 \<and>
   0 \<notin> set (readyqueue aging_three) \<and> 2 \<in> set (readyqueue aging_three) \<and>
   prio (procs aging_three 0) \<le> prio (procs aging_three 2) \<and>
   (\<exists>w s'. pa_schedule 64 aging_three = Inr (Some w, s') \<and> w \<noteq> 0 \<and>
           prio (procs s' w) = prio_orig (procs aging_three w)) \<and>
   (\<exists>s'. pa_schedule 64 aging_three = Inr (Some 2, s') \<and> readyqueue s' = [1, 0] \<and>
         prio (procs s' 2) = 3 \<and> prio (procs s' 1) = 2 \<and> prio (procs s' 0) = 3)"
proof -
  have a: "distinct (readyqueue aging_three)" "running aging_three 0"
    "0 \<notin> set (readyqueue aging_three)" "2 \<in> set (readyqueue aging_three)"
    "prio (procs aging_three 0) \<le> prio (procs aging_three 2)"
    by code_simp+
  from a(4,5) have ex: "\<exists>p\<in>set (readyqueue aging_three).
      prio (procs aging_three 0) \<le> prio (procs aging_three p)"
    by (rule bexI[rotated])
  from a(2,3) ex have h: "running aging_three 0 \<and> 0 \<notin> set (readyqueue aging_three) \<and>
      (\<exists>p\<in>set (readyqueue aging_three).
         prio (procs aging_three 0) \<le> prio (procs aging_three p))"
    by (intro conjI)
  note pa_schedule_aging[OF a(1), of 64, THEN conjunct1, THEN spec, of 0, THEN mp, OF h]
  then have b: "\<exists>w s'. pa_schedule 64 aging_three = Inr (Some w, s') \<and> w \<noteq> 0 \<and>
           prio (procs s' w) = prio_orig (procs aging_three w)"
    by (elim exE conjE) (intro exI conjI, assumption+)
  have "case pa_schedule 64 aging_three of
          Inl e \<Rightarrow> False
        | Inr (n, s') \<Rightarrow> n = Some 2 \<and> (readyqueue s' = [1, 0] \<and>
            prio (procs s' 2) = 3 \<and> prio (procs s' 1) = 2 \<and> prio (procs s' 0) = 3)"
    by code_simp
  then have c: "\<exists>s'. pa_schedule 64 aging_three = Inr (Some 2, s') \<and> readyqueue s' = [1, 0] \<and>
         prio (procs s' 2) = 3 \<and> prio (procs s' 1) = 2 \<and> prio (procs s' 0) = 3"
    by (rule sum_pair_caseD)
  from a b c show ?thesis by (intro conjI)
qed

subsection \<open>The retire step leaves the queues alone\<close>

lemma exit_process_queues:
  "exit_process sc p s = Inr s' \<Longrightarrow> exiting sc = None \<Longrightarrow>
   readyqueue s' = readyqueue s \<and> forkqueue s' = forkqueue s \<and> resources s' = resources s \<and>
   current s' = current s \<and> freed s' = insert p (freed s)"
  by (auto simp: exit_process_def Let_def print_event_def split: if_splits)

lemma retire_previous_queues:
  "retire_previous sc prev s = Inr s' \<Longrightarrow> exiting sc = None \<Longrightarrow>
   readyqueue s' = readyqueue s \<and> forkqueue s' = forkqueue s \<and> resources s' = resources s \<and>
   current s' = current s"
  by (auto simp: retire_previous_def Let_def set_status_def
      split: option.splits if_splits dest!: exit_process_queues)

subsection \<open>The sentinel of the shortest-job search\<close>

lemma min_lifespan_sentinel:
  "\<forall>p\<in>set q. m \<le> lifespan (procs s p) \<Longrightarrow> min_lifespan m q s = m"
  unfolding min_lifespan_def by (induction q) auto

lemma shortest_pick_next_sentinel:
  assumes ne: "readyqueue s \<noteq> []" and big: "\<forall>p\<in>set (readyqueue s). 1000 < lifespan (procs s p)"
  shows "shortest_pick_next cnt 1000 s = (Some (last (readyqueue s)), s)"
proof -
  have m: "min_lifespan 1000 (readyqueue s) s = 1000"
    using big by (intro min_lifespan_sentinel) (auto dest: less_imp_le)
  have f: "find (\<lambda>p. lifespan (procs s p) = 1000) (readyqueue s) = None"
    using big by (auto simp: find_None_iff)
  show ?thesis
    using ne by (simp add: shortest_pick_next_def m f last_entry_def)
qed

text \<open>
  Claim C10, as amended.  Let \<open>s1\<close> be the state \<^verbatim>\<open>sjf_schedule\<close> is called in (the
  state of the tick after the fork step).  When there is no runnable current process, the
  ready queue is not empty and every process in it has a lifespan above 1000,
  \<^verbatim>\<open>sjf_schedule\<close> returns the last process of the ready queue and changes nothing, so
  that the process is still linked.  The tick then aborts in every case: when the retire step
  for the previous process fails (an assertion of \<^verbatim>\<open>__exit_process\<close>), with the error of
  that step; when the retire step passes and the record of the selected process has not been
  freed, on the assertion \<^verbatim>\<open>list_empty(&current->list)\<close>.
\<close>

theorem sjf_sentinel_abort:
  assumes s1: "s1 = fork_on_schedule sjf_scheduler s"
    and nr: "no_runner s1"
    and ne: "readyqueue s1 \<noteq> []"
    and big: "\<forall>p\<in>set (readyqueue s1). 1000 < lifespan (procs s1 p)"
  shows "sjf_schedule s1 = Inr (Some (last (readyqueue s1)), s1) \<and>
         \<not> list_empty_node (last (readyqueue s1)) s1 \<and>
         (\<exists>e. do_tick sjf_scheduler s = Abort e) \<and>
         (\<forall>s3. retire_previous sjf_scheduler (current s1)
                 (s1\<lparr>current := Some (last (readyqueue s1))\<rparr>) = Inr s3 \<and>
               last (readyqueue s1) \<notin> freed s3 \<longrightarrow>
               do_tick sjf_scheduler s = Abort Assert_current_detached) \<and>
         (\<forall>e. retire_previous sjf_scheduler (current s1)
                 (s1\<lparr>current := Some (last (readyqueue s1))\<rparr>) = Inl e \<longrightarrow>
               do_tick sjf_scheduler s = Abort e)"
proof -
  let ?c = "last (readyqueue s1)"
  have sched: "sjf_schedule s1 = Inr (Some ?c, s1)"
    using nr shortest_pick_next_sentinel[OF ne big]
    by (auto simp: sjf_schedule_def no_runner_def split: option.splits)
  have linked: "?c \<in> set (readyqueue s1)"
    using ne by simp
  then have nd: "\<not> list_empty_node ?c s1"
    by (simp add: list_empty_node_def)
  have hooks: "exiting sjf_scheduler = None" "schedule sjf_scheduler = sjf_schedule"
    by (simp_all add: sjf_scheduler_def)
  have run: "\<exists>e. execute_current sjf_scheduler ?c s3 = Inl e \<and>
        (?c \<notin> freed s3 \<longrightarrow> e = Assert_current_detached)"
    if "retire_previous sjf_scheduler (current s1) (s1\<lparr>current := Some ?c\<rparr>) = Inr s3" for s3
  proof -
    from retire_previous_queues[OF that hooks(1)] linked
    have "?c \<in> set (readyqueue s3)" by simp
    then show ?thesis
      by (simp add: execute_current_def list_empty_node_def set_status_def)
  qed
  let ?r = "retire_previous sjf_scheduler (current s1) (s1\<lparr>current := Some ?c\<rparr>)"
  have tick_l: "do_tick sjf_scheduler s = Abort e" if "?r = Inl e" for e
    using that by (simp add: do_tick_def Let_def s1[symmetric] hooks(2) sched)
  have tick_r: "do_tick sjf_scheduler s = Abort e"
    if r: "?r = Inr s3" and e: "execute_current sjf_scheduler ?c s3 = Inl e" for s3 e
  proof -
    from retire_previous_queues[OF r hooks(1)] have "current s3 = Some ?c" by simp
    with r e show ?thesis
      by (simp add: do_tick_def Let_def s1[symmetric] hooks(2) sched)
  qed
  have ab: "\<exists>e. do_tick sjf_scheduler s = Abort e"
  proof (cases ?r)
    case (Inl e)
    then show ?thesis using tick_l by blast
  next
    case (Inr s3)
    from run[OF Inr] obtain e where "execute_current sjf_scheduler ?c s3 = Inl e" by blast
    from tick_r[OF Inr this] show ?thesis by blast
  qed
  have det: "do_tick sjf_scheduler s = Abort Assert_current_detached"
    if r: "?r = Inr s3" and fr: "?c \<notin> freed s3" for s3
  proof -
    from run[OF r] fr have "execute_current sjf_scheduler ?c s3 = Inl Assert_current_detached"
      by auto
    from tick_r[OF r this] show ?thesis .
  qed
  have cond: "\<forall>s3. retire_previous sjf_scheduler (current s1)
                 (s1\<lparr>current := Some ?c\<rparr>) = Inr s3 \<and> ?c \<notin> freed s3 \<longrightarrow>
               do_tick sjf_scheduler s = Abort Assert_current_detached"
    using det by simp
  have fail: "\<forall>e. retire_previous sjf_scheduler (current s1)
                 (s1\<lparr>current := Some ?c\<rparr>) = Inl e \<longrightarrow>
               do_tick sjf_scheduler s = Abort e"
    using tick_l by simp
  from sched nd ab cond fail show ?thesis
    by (intro conjI)
qed

theorem sjf_sentinel_abort_witness:
  "(no_runner (fork_on_schedule sjf_scheduler long_jobs) \<and>
    readyqueue (fork_on_schedule sjf_scheduler long_jobs) = [0, 1] \<and>
    1000 < lifespan (procs (fork_on_schedule sjf_scheduler long_jobs) 0) \<and>
    1000 < lifespan (procs (fork_on_schedule sjf_scheduler long_jobs) 1) \<and>
    (\<exists>s'. sjf_schedule (fork_on_schedule sjf_scheduler long_jobs) = Inr (Some 1, s')) \<and>
    do_tick sjf_scheduler long_jobs = Abort Assert_current_detached) \<and>
   (\<exists>s. do_simulation sjf_scheduler 1 overtaken = Continue s \<and>
        no_runner (fork_on_schedule sjf_scheduler s) \<and>
        readyqueue (fork_on_schedule sjf_scheduler s) = [1] \<and>
        1000 < lifespan (procs (fork_on_schedule sjf_scheduler s) 1) \<and>
        retire_previous sjf_scheduler (current (fork_on_schedule sjf_scheduler s))
          ((fork_on_schedule sjf_scheduler s)\<lparr>current := Some 1\<rparr>) = Inl Assert_exit_holding \<and>
        do_tick sjf_scheduler s = Abort Assert_exit_holding)"
proof (rule conjI)
  let ?s1 = "fork_on_schedule sjf_scheduler long_jobs"
  have a: "no_runner ?s1" "readyqueue ?s1 = [0, 1]"
    "1000 < lifespan (procs ?s1 0)" "1000 < lifespan (procs ?s1 1)"
    by code_simp+
  have ne: "readyqueue ?s1 \<noteq> []" and big: "\<forall>p\<in>set (readyqueue ?s1). 1000 < lifespan (procs ?s1 p)"
    and l: "last (readyqueue ?s1) = 1"
    using a by simp_all
  note T = sjf_sentinel_abort[OF refl a(1) ne big]
  from T[THEN conjunct1] l have b: "\<exists>s'. sjf_schedule ?s1 = Inr (Some 1, s')"
    by simp
  have "case retire_previous sjf_scheduler (current ?s1) (?s1\<lparr>current := Some 1\<rparr>) of
          Inl e \<Rightarrow> False | Inr s3 \<Rightarrow> 1 \<notin> freed s3"
    by code_simp
  from sum_caseD[OF this] obtain s3 where
    s3: "retire_previous sjf_scheduler (current ?s1) (?s1\<lparr>current := Some 1\<rparr>) = Inr s3 \<and>
      1 \<notin> freed s3"
    by (elim exE) (rule that)
  from s3 l have "retire_previous sjf_scheduler (current ?s1)
      (?s1\<lparr>current := Some (last (readyqueue ?s1))\<rparr>) = Inr s3 \<and>
      last (readyqueue ?s1) \<notin> freed s3"
    by simp
  note c = T[THEN conjunct2, THEN conjunct2, THEN conjunct2, THEN conjunct1, THEN spec, of s3,
      THEN mp, OF this]
  show "no_runner ?s1 \<and> readyqueue ?s1 = [0, 1] \<and>
    1000 < lifespan (procs ?s1 0) \<and> 1000 < lifespan (procs ?s1 1) \<and>
    (\<exists>s'. sjf_schedule ?s1 = Inr (Some 1, s')) \<and>
    do_tick sjf_scheduler long_jobs = Abort Assert_current_detached"
    by (intro conjI) (rule a b c)+
next
  have "case do_simulation sjf_scheduler 1 overtaken of
          Continue s \<Rightarrow>
            no_runner (fork_on_schedule sjf_scheduler s) \<and>
            readyqueue (fork_on_schedule sjf_scheduler s) = [1] \<and>
            1000 < lifespan (procs (fork_on_schedule sjf_scheduler s) 1) \<and>
            (case retire_previous sjf_scheduler (current (fork_on_schedule sjf_scheduler s))
                    ((fork_on_schedule sjf_scheduler s)\<lparr>current := Some 1\<rparr>) of
               Inl e \<Rightarrow> e = Assert_exit_holding | Inr s3 \<Rightarrow> False)
        | _ \<Rightarrow> False"
    by code_simp
  then obtain s where s: "do_simulation sjf_scheduler 1 overtaken = Continue s"
    and nr: "no_runner (fork_on_schedule sjf_scheduler s)"
    and rq: "readyqueue (fork_on_schedule sjf_scheduler s) = [1]"
    and big1: "1000 < lifespan (procs (fork_on_schedule sjf_scheduler s) 1)"
    and rc: "case retire_previous sjf_scheduler (current (fork_on_schedule sjf_scheduler s))
                    ((fork_on_schedule sjf_scheduler s)\<lparr>current := Some 1\<rparr>) of
               Inl e \<Rightarrow> e = Assert_exit_holding | Inr s3 \<Rightarrow> False"
    by (cases "do_simulation sjf_scheduler 1 overtaken") simp_all
  let ?s1 = "fork_on_schedule sjf_scheduler s"
  from rc have r: "retire_previous sjf_scheduler (current ?s1) (?s1\<lparr>current := Some 1\<rparr>)
      = Inl Assert_exit_holding"
    by (cases "retire_previous sjf_scheduler (current ?s1) (?s1\<lparr>current := Some 1\<rparr>)")
      simp_all
  have ne: "readyqueue ?s1 \<noteq> []"
    and big: "\<forall>p\<in>set (readyqueue ?s1). 1000 < lifespan (procs ?s1 p)"
    and l: "last (readyqueue ?s1) = 1"
    using rq big1 by simp_all
  from r l have "retire_previous sjf_scheduler (current ?s1)
      (?s1\<lparr>current := Some (last (readyqueue ?s1))\<rparr>) = Inl Assert_exit_holding"
    by simp
  note d = sjf_sentinel_abort[OF refl nr ne big, THEN conjunct2, THEN conjunct2, THEN conjunct2,
      THEN conjunct2, THEN spec, of Assert_exit_holding, THEN mp, OF this]
  from s nr rq big1 r d
  show "\<exists>s. do_simulation sjf_scheduler 1 overtaken = Continue s \<and>
        no_runner (fork_on_schedule sjf_scheduler s) \<and>
        readyqueue (fork_on_schedule sjf_scheduler s) = [1] \<and>
        1000 < lifespan (procs (fork_on_schedule sjf_scheduler s) 1) \<and>
        retire_previous sjf_scheduler (current (fork_on_schedule sjf_scheduler s))
          ((fork_on_schedule sjf_scheduler s)\<lparr>current := Some 1\<rparr>) = Inl Assert_exit_holding \<and>
        do_tick sjf_scheduler s = Abort Assert_exit_holding"
    by (intro exI[of _ s]) (intro conjI; assumption)
qed

text \<open>
  The claim as stated fails: under SJF, let a process of lifespan 1 take resource 0 for two
  ticks, and let a job of lifespan 2000 arrive at tick 1.  In the second tick there is no
  runnable current process and the ready queue holds the long job only;
  \<^verbatim>\<open>sjf_schedule\<close> returns it still linked, but the program stops in the retire step, on
  the assertion of \<^verbatim>\<open>__exit_process\<close> that the exiting process holds no resource, before
  it reaches \<^verbatim>\<open>list_empty(&current->list)\<close>.
\<close>

theorem sentinel_abort_in_retire_counterexample:
  "(case do_simulation sjf_scheduler 1 overtaken of
      Continue s \<Rightarrow>
        no_runner (fork_on_schedule sjf_scheduler s) \<and>
        readyqueue (fork_on_schedule sjf_scheduler s) = [1] \<and>
        1000 < lifespan (procs (fork_on_schedule sjf_scheduler s) 1) \<and>
        (case sjf_schedule (fork_on_schedule sjf_scheduler s) of
           Inr (n, s2) \<Rightarrow> n = Some 1 \<and> readyqueue s2 = [1]
         | Inl e \<Rightarrow> False) \<and>
        (case do_tick sjf_scheduler s of
           Abort e \<Rightarrow> e = Assert_exit_holding \<and> e \<noteq> Assert_current_detached
         | Continue s' \<Rightarrow> False | Finished s' \<Rightarrow> False)
    | Abort e \<Rightarrow> False | Finished s \<Rightarrow> False)"
  by code_simp

subsection \<open>Frames of the callbacks\<close>

lemma plan_frame_refl [simp]: "plan_frame s s"
  by (simp add: plan_frame_def)

lemma plan_frame_trans: "plan_frame s s' \<Longrightarrow> plan_frame s' s'' \<Longrightarrow> plan_frame s s''"
  by (simp add: plan_frame_def)

lemma mono_frame_refl [simp]: "mono_frame s s"
  by (simp add: mono_frame_def)

lemma mono_frame_trans: "mono_frame s s' \<Longrightarrow> mono_frame s' s'' \<Longrightarrow> mono_frame s s''"
  by (auto simp: mono_frame_def)

lemma plan_frame_mono: "plan_frame s s' \<Longrightarrow> mono_frame s s'"
  by (simp add: plan_frame_def mono_frame_def)

lemma list_del_init_frame: "plan_frame s (list_del_init p s)"
  by (simp add: plan_frame_def list_del_init_def)

lemma list_add_tail_frame: "plan_frame s (list_add_tail p h s)"
  by (cases h) (simp_all add: plan_frame_def)

lemma list_add_frame: "plan_frame s (list_add p h s)"
  by (cases h) (simp_all add: plan_frame_def)

lemma set_prio_frame: "plan_frame s (set_prio p v s)"
  by (simp add: plan_frame_def set_prio_def)

lemma set_status_frame: "plan_frame s (set_status p v s)"
  by (simp add: plan_frame_def set_status_def)

lemma set_owner_frame: "plan_frame s (set_owner r v s)"
  by (simp add: plan_frame_def set_owner_def)

lemmas frame_steps = list_del_init_frame list_add_tail_frame list_add_frame set_prio_frame
  set_status_frame set_owner_frame

lemma wake_highest_frame: "wake_highest rid s = Inr s' \<Longrightarrow> plan_frame s s'"
  by (auto simp: wake_highest_def Let_def plan_frame_def upd_defs
      split: if_splits option.splits)

lemma fcfs_release_frame: "fcfs_release rid s = Inr s' \<Longrightarrow> plan_frame s s'"
  by (auto simp: fcfs_release_def Let_def plan_frame_def upd_defs
      split: if_splits list.splits)

lemma prio_release_frame: "prio_release rid s = Inr s' \<Longrightarrow> plan_frame s s'"
  by (auto simp: prio_release_def split: if_splits
      dest!: wake_highest_frame simp: plan_frame_def set_owner_def)

lemma pcp_release_frame: "pcp_release rid s = Inr s' \<Longrightarrow> plan_frame s s'"
  by (auto simp: pcp_release_def split: if_splits option.splits
      dest!: wake_highest_frame simp: plan_frame_def set_owner_def set_prio_def)

lemma pip_release_frame: "pip_release rid s = Inr s' \<Longrightarrow> plan_frame s s'"
  by (auto simp: pip_release_def split: if_splits option.splits
      dest!: wake_highest_frame simp: plan_frame_def set_owner_def set_prio_def)

lemma release_cases:
  "sc \<in> set (schedulers MAX_PRIO) \<Longrightarrow>
     release sc = fcfs_release \<or> release sc = prio_release \<or>
     release sc = pcp_release \<or> release sc = pip_release"
  by (auto simp: schedulers_def scheduler_defs)

lemma release_frame:
  "sc \<in> set (schedulers MAX_PRIO) \<Longrightarrow> release sc rid s = Inr s' \<Longrightarrow> plan_frame s s'"
  using release_cases[of sc MAX_PRIO]
  by (auto dest: fcfs_release_frame prio_release_frame pcp_release_frame pip_release_frame)


subsection \<open>Frames of the schedule functions\<close>

lemma pick_first_frame: "pick_first s = (n, s') \<Longrightarrow> plan_frame s s'"
  by (auto simp: pick_first_def plan_frame_def list_del_init_def split: list.splits)

lemma shortest_pick_next_frame: "shortest_pick_next cnt m s = (n, s') \<Longrightarrow> plan_frame s s'"
  by (auto simp: shortest_pick_next_def Let_def plan_frame_def list_del_init_def
      split: if_splits option.splits)

lemma prio_pick_next_frame: "prio_pick_next s = (n, s') \<Longrightarrow> plan_frame s s'"
  by (auto simp: prio_pick_next_def Let_def plan_frame_def list_del_init_def
      split: if_splits option.splits)

lemma fifo_schedule_frame: "fifo_schedule s = Inr (n, s') \<Longrightarrow> plan_frame s s'"
  by (auto simp: fifo_schedule_def split: option.splits if_splits dest: pick_first_frame)

lemma sjf_schedule_frame: "sjf_schedule s = Inr (n, s') \<Longrightarrow> plan_frame s s'"
  by (auto simp: sjf_schedule_def split: option.splits if_splits
      dest: shortest_pick_next_frame)

lemma srtf_schedule_frame: "srtf_schedule s = Inr (n, s') \<Longrightarrow> plan_frame s s'"
  by (auto simp: srtf_schedule_def Let_def split: option.splits if_splits
      dest: shortest_pick_next_frame simp: plan_frame_def list_del_init_def)

lemma rr_schedule_frame: "rr_schedule s = Inr (n, s') \<Longrightarrow> plan_frame s s'"
  by (auto simp: rr_schedule_def Let_def split: option.splits if_splits list.splits
      dest!: pick_first_frame simp: plan_frame_def list_del_init_def)

lemma prio_schedule_frame: "prio_schedule s = Inr (n, s') \<Longrightarrow> plan_frame s s'"
  by (auto simp: prio_schedule_def split: option.splits if_splits dest: prio_pick_next_frame)

lemma pa_age_all_frame: "plan_frame s (pa_age_all M q s)"
proof (induction q arbitrary: s)
  case Nil
  then show ?case by simp
next
  case (Cons x q)
  show ?case
    using Cons[of s] Cons[of "set_prio x (prio (procs s x) + 1) s"]
    by (auto intro: plan_frame_trans[OF set_prio_frame])
qed

lemma pa_scan_frame: "pa_scan M m q nx s = (n, s') \<Longrightarrow> plan_frame s s'"
proof (induction q arbitrary: s nx)
  case Nil
  then show ?case by simp
next
  case (Cons x q)
  show ?case
  proof (cases "m = prio (procs s x) \<and> nx = None")
    case True
    with Cons.prems have "pa_scan M m q (Some x) s = (n, s')" by simp
    then show ?thesis by (rule Cons.IH)
  next
    case False
    show ?thesis
    proof (cases "prio (procs s x) < M")
      case True
      with False Cons.prems
      have "pa_scan M m q nx (set_prio x (prio (procs s x) + 1) s) = (n, s')"
        by auto
      from plan_frame_trans[OF set_prio_frame Cons.IH[OF this]] show ?thesis .
    next
      case nlt: False
      with False Cons.prems have "pa_scan M m q nx s = (n, s')" by auto
      then show ?thesis by (rule Cons.IH)
    qed
  qed
qed

lemma pa_pick_next_frame: "pa_pick_next M cnt m s = Inr (n, s') \<Longrightarrow> plan_frame s s'"
  by (auto simp: pa_pick_next_def Let_def split: if_splits prod.splits option.splits
      dest!: pa_scan_frame simp: plan_frame_def list_del_init_def set_prio_def)

lemma pa_schedule_frame: "pa_schedule M s = Inr (n, s') \<Longrightarrow> plan_frame s s'"
proof -
  assume a: "pa_schedule M s = Inr (n, s')"
  have 1: "pa_pick_next M cnt m s = Inr (n, s') \<Longrightarrow> plan_frame s s'" for cnt m
    by (rule pa_pick_next_frame)
  have 2: "pa_pick_next M cnt m (list_add_tail c Readyqueue s) = Inr (n, s') \<Longrightarrow> plan_frame s s'"
    for cnt m c
    by (rule plan_frame_trans[OF list_add_tail_frame pa_pick_next_frame])
  have 3: "plan_frame s (set_prio c v (pa_age_all M q s))" for c v q
    by (rule plan_frame_trans[OF pa_age_all_frame set_prio_frame])
  from a show ?thesis
    by (auto simp: pa_schedule_def Let_def split: option.splits if_splits
        intro: 1 2 3 set_prio_frame)
qed

lemma pcp_pick_next_frame: "pcp_pick_next cnt m s = Inr (n, s') \<Longrightarrow> plan_frame s s'"
  by (auto simp: pcp_pick_next_def Let_def split: if_splits option.splits
      simp: plan_frame_def list_del_init_def set_prio_def)

lemma pcp_schedule_frame: "pcp_schedule s = Inr (n, s') \<Longrightarrow> plan_frame s s'"
proof -
  assume a: "pcp_schedule s = Inr (n, s')"
  have 1: "pcp_pick_next cnt m s = Inr (n, s') \<Longrightarrow> plan_frame s s'" for cnt m
    by (rule pcp_pick_next_frame)
  have 2: "pcp_pick_next cnt m (list_add_tail c Readyqueue s) = Inr (n, s') \<Longrightarrow> plan_frame s s'"
    for cnt m c
    by (rule plan_frame_trans[OF list_add_tail_frame pcp_pick_next_frame])
  from a show ?thesis
    by (auto simp: pcp_schedule_def Let_def split: option.splits if_splits
        intro: 1 2 set_prio_frame)
qed

lemma schedule_cases:
  "sc \<in> set (schedulers MAX_PRIO) \<Longrightarrow>
     schedule sc = fifo_schedule \<or> schedule sc = sjf_schedule \<or>
     schedule sc = srtf_schedule \<or> schedule sc = rr_schedule \<or>
     schedule sc = prio_schedule \<or> schedule sc = pa_schedule MAX_PRIO \<or>
     schedule sc = pcp_schedule"
  by (auto simp: schedulers_def scheduler_defs)

lemma schedule_frame:
  "sc \<in> set (schedulers MAX_PRIO) \<Longrightarrow> schedule sc s = Inr (n, s') \<Longrightarrow> plan_frame s s'"
  using schedule_cases[of sc MAX_PRIO]
  by (auto dest: fifo_schedule_frame sjf_schedule_frame srtf_schedule_frame rr_schedule_frame
      prio_schedule_frame pa_schedule_frame pcp_schedule_frame)

lemma hooks_none:
  "sc \<in> set (schedulers MAX_PRIO) \<Longrightarrow> forked sc = None \<and> exiting sc = None"
  by (auto simp: schedulers_def scheduler_defs)


subsection \<open>Frames of the engine's steps\<close>

lemma fork_loop_frame:
  "forked sc = None \<Longrightarrow>
   mono_frame s (fork_loop sc q s) \<and> ticks_cnt (fork_loop sc q s) = ticks_cnt s \<and>
   (\<forall>p. age (procs (fork_loop sc q s) p) = age (procs s p))"
proof (induction q arbitrary: s)
  case Nil
  then show ?case by simp
next
  case (Cons x q)
  let ?s4 = "print_event (Forked (pid (procs s x)))
               (set_status x PROCESS_READY (list_move_tail x Readyqueue s))"
  have step: "mono_frame s ?s4 \<and> ticks_cnt ?s4 = ticks_cnt s \<and>
      (\<forall>p. age (procs ?s4 p) = age (procs s p))"
    by (auto simp: mono_frame_def upd_defs)
  have eq: "fork_loop sc (x # q) s =
      (if starts_at (procs s x) \<le> unat (ticks s) then fork_loop sc q ?s4 else fork_loop sc q s)"
    using Cons.prems by (simp add: Let_def upd_defs)
  show ?case
    unfolding eq using Cons.IH[OF Cons.prems, of s] Cons.IH[OF Cons.prems, of ?s4] step
    by (auto intro: mono_frame_trans)
qed

lemma fork_on_schedule_frame:
  "forked sc = None \<Longrightarrow>
   mono_frame s (fork_on_schedule sc s) \<and> ticks_cnt (fork_on_schedule sc s) = ticks_cnt s \<and>
   (\<forall>p. age (procs (fork_on_schedule sc s) p) = age (procs s p))"
  unfolding fork_on_schedule_def by (rule fork_loop_frame)

lemma acquire_loop_frame:
  assumes sc: "sc \<in> set (schedulers MAX_PRIO)"
  shows "acquire_loop sc c kept todo s = Inr (b, s') \<Longrightarrow>
         mono_frame s s' \<and> (\<forall>p. age (procs s' p) = age (procs s p))"
proof (induction todo arbitrary: kept s)
  case Nil
  then show ?case by simp
next
  case (Cons rs rest)
  show ?case
  proof (cases "at rs = int (age (procs s c))")
    case False
    with Cons.prems have "acquire_loop sc c (kept @ [rs]) rest s = Inr (b, s')" by simp
    then show ?thesis by (rule Cons.IH)
  next
    case True
    show ?thesis
    proof (cases "acquire sc (resource_id rs) s")
      case (Inl e)
      with Cons.prems True show ?thesis by simp
    next
      case (Inr res)
      obtain ok s1 where res: "res = (ok, s1)" by (cases res)
      from acquire_frame[OF sc Inr[unfolded res]] have fr: "plan_frame s s1" .
      show ?thesis
      proof (cases ok)
        case False
        with Cons.prems True Inr res have "s' = s1" by simp
        with fr show ?thesis by (simp add: plan_frame_def mono_frame_def)
      next
        case ok: True
        define s4 where "s4 = print_event (Acquired (pid (procs s1 c)) (resource_id rs))
             (set_holding c (resources_holding (procs s1 c) @ [rs])
               (set_to_acquire c (kept @ rest) s1))"
        from Cons.prems True Inr res ok have "acquire_loop sc c kept rest s4 = Inr (b, s')"
          by (simp add: s4_def Let_def upd_defs)
        from Cons.IH[OF this] have ih: "mono_frame s4 s'" "\<forall>p. age (procs s' p) = age (procs s4 p)"
          by simp_all
        have "mono_frame s s4" "\<forall>p. age (procs s4 p) = age (procs s p)"
          using fr by (auto simp: s4_def upd_defs plan_frame_def mono_frame_def)
        with ih show ?thesis by (auto intro: mono_frame_trans)
      qed
    qed
  qed
qed

lemma release_loop_frame:
  assumes sc: "sc \<in> set (schedulers MAX_PRIO)"
  shows "release_loop sc c kept held s = Inr s' \<Longrightarrow>
         mono_frame s s' \<and> (\<forall>p. age (procs s' p) = age (procs s p))"
proof (induction held arbitrary: kept s)
  case Nil
  then show ?case by simp
next
  case (Cons rs rest)
  let ?rs = "rs\<lparr>duration := duration rs - 1\<rparr>"
  let ?s1 = "set_holding c (kept @ ?rs # rest) s"
  have f1: "mono_frame s ?s1" "\<forall>p. age (procs ?s1 p) = age (procs s p)"
    by (auto simp: mono_frame_def upd_defs)
  show ?case
  proof (cases "duration rs - 1 = 0")
    case False
    with Cons.prems have "release_loop sc c (kept @ [?rs]) rest ?s1 = Inr s'"
      by (simp add: Let_def)
    from Cons.IH[OF this] f1 show ?thesis by (auto intro: mono_frame_trans)
  next
    case True
    show ?thesis
    proof (cases "release sc (resource_id rs) ?s1")
      case (Inl e)
      with Cons.prems True show ?thesis by (simp add: Let_def)
    next
      case (Inr s2)
      from release_frame[OF sc Inr] have fr: "plan_frame ?s1 s2" .
      define s4 where "s4 = set_holding c (kept @ rest)
          (print_event (Released (pid (procs s2 c)) (resource_id rs)) s2)"
      from Cons.prems True Inr have "release_loop sc c kept rest s4 = Inr s'"
        by (simp add: Let_def s4_def)
      from Cons.IH[OF this] have ih: "mono_frame s4 s'" "\<forall>p. age (procs s' p) = age (procs s4 p)"
        by simp_all
      have "mono_frame ?s1 s4" "\<forall>p. age (procs s4 p) = age (procs ?s1 p)"
        using fr by (auto simp: s4_def upd_defs plan_frame_def mono_frame_def)
      with ih f1 show ?thesis by (auto intro: mono_frame_trans)
    qed
  qed
qed

lemma execute_current_frame:
  assumes sc: "sc \<in> set (schedulers MAX_PRIO)" and ex: "execute_current sc c s = Inr s'"
  shows "mono_frame s s'"
proof -
  let ?s1 = "set_status c PROCESS_RUNNING s"
  have f1: "mono_frame s ?s1" by (simp add: mono_frame_def set_status_def)
  from ex obtain b s2 where acq: "run_current_acquire sc c ?s1 = Inr (b, s2)"
    by (auto simp: execute_current_def Let_def split: if_splits sum.splits)
  from acquire_loop_frame[OF sc acq[unfolded run_current_acquire_def]]
  have f2: "mono_frame ?s1 s2" by simp
  show ?thesis
  proof (cases b)
    case False
    with ex acq have "s' = print_event (Blocked (pid (procs s2 c))) s2"
      by (auto simp: execute_current_def Let_def split: if_splits)
    then have "mono_frame s2 s'" by (auto simp: mono_frame_def print_event_def)
    with f1 f2 show ?thesis by (blast intro: mono_frame_trans)
  next
    case True
    let ?s3 = "print_event (Ran (pid (procs s2 c))) s2"
    let ?s4 = "set_age c (age (procs ?s3 c) + 1) ?s3"
    from ex acq True have "run_current_release sc c ?s4 = Inr s'"
      by (auto simp: execute_current_def Let_def split: if_splits)
    from release_loop_frame[OF sc this[unfolded run_current_release_def]]
    have f4: "mono_frame ?s4 s'" by simp
    have "mono_frame s2 ?s4" by (auto simp: mono_frame_def upd_defs)
    with f1 f2 f4 show ?thesis by (blast intro: mono_frame_trans)
  qed
qed


subsection \<open>Anatomy of a tick\<close>

lemma do_tick_steps:
  assumes "do_tick sc s = Continue s' \<or> do_tick sc s = Finished s'"
  shows "\<exists>n s2 s3.
           schedule sc (fork_on_schedule sc s) = Inr (n, s2) \<and>
           retire_previous sc (current (fork_on_schedule sc s)) (s2\<lparr>current := n\<rparr>) = Inr s3 \<and>
           ((current s3 = None \<and> do_tick sc s = Finished s' \<and> s' = s3 \<and>
               readyqueue s3 = [] \<and> forkqueue s3 = []) \<or>
            (current s3 = None \<and> do_tick sc s = Continue s' \<and>
               s' = (print_event Idle s3)\<lparr>ticks := ticks s3 + 1\<rparr>) \<or>
            (\<exists>c s4. current s3 = Some c \<and> execute_current sc c s3 = Inr s4 \<and>
               do_tick sc s = Continue s' \<and> s' = s4\<lparr>ticks := ticks s4 + 1\<rparr>))"
proof (cases "schedule sc (fork_on_schedule sc s)")
  case (Inl e)
  with assms show ?thesis by (simp add: do_tick_def Let_def)
next
  case (Inr res)
  obtain n s2 where res: "res = (n, s2)" by (cases res)
  show ?thesis
  proof (cases "retire_previous sc (current (fork_on_schedule sc s)) (s2\<lparr>current := n\<rparr>)")
    case (Inl e)
    with assms Inr res show ?thesis by (simp add: do_tick_def Let_def)
  next
    case r: (Inr s3)
    show ?thesis
    proof (cases "current s3")
      case None
      with assms Inr res r show ?thesis
        by (auto simp: do_tick_def Let_def split: if_splits)
    next
      case (Some c)
      show ?thesis
      proof (cases "execute_current sc c s3")
        case (Inl e)
        with assms Inr res r Some show ?thesis by (simp add: do_tick_def Let_def)
      next
        case e: (Inr s4)
        with assms Inr res r Some show ?thesis by (simp add: do_tick_def Let_def)
      qed
    qed
  qed
qed

lemma exit_process_ok:
  assumes "list_empty_node p s" "resources_holding (procs s p) = []"
    "resources_to_acquire (procs s p) = []" "exiting sc = None"
  shows "exit_process sc p s =
           Inr ((print_event (Exited (pid (procs s p))) s)\<lparr>freed := insert p (freed s)\<rparr>)"
  using assms by (simp add: exit_process_def print_event_def)

lemma exit_process_fails:
  assumes "\<not> (list_empty_node p s \<and> resources_holding (procs s p) = [] \<and>
             resources_to_acquire (procs s p) = [])"
  shows "exit_process sc p s = Inl Assert_exit_detached \<or>
         exit_process sc p s = Inl Assert_exit_holding \<or>
         exit_process sc p s = Inl Assert_exit_pending"
  using assms by (auto simp: exit_process_def)

lemma exit_process_result:
  assumes "exit_process sc p s = Inr s'" "exiting sc = None"
  shows "s' = (print_event (Exited (pid (procs s p))) s)\<lparr>freed := insert p (freed s)\<rparr>"
  using assms by (auto simp: exit_process_def Let_def print_event_def split: if_splits)

lemma retire_previous_result:
  assumes r: "retire_previous sc prev s = Inr s'" and h: "exiting sc = None"
  shows "current s' = current s \<and> ticks s' = ticks s \<and> ticks_cnt s' = ticks_cnt s \<and>
         set (stderr_log s) \<subseteq> set (stderr_log s') \<and>
         (\<forall>p. pid (procs s' p) = pid (procs s p) \<and> lifespan (procs s' p) = lifespan (procs s p) \<and>
              age (procs s' p) = age (procs s p)) \<and>
         (freed s' = freed s \<and> (\<forall>p. prev = Some p \<longrightarrow> age (procs s p) \<noteq> lifespan (procs s p)) \<or>
          (\<exists>p. prev = Some p \<and> age (procs s p) = lifespan (procs s p) \<and>
               freed s' = insert p (freed s) \<and>
               (ticks s, Exited (pid (procs s p))) \<in> set (stderr_log s')))"
proof (cases prev)
  case None
  with r show ?thesis by (simp add: retire_previous_def)
next
  case (Some p)
  let ?s1 = "if status (procs s p) = PROCESS_RUNNING then set_status p PROCESS_READY s else s"
  have s1: "age (procs ?s1 q) = age (procs s q)" "lifespan (procs ?s1 q) = lifespan (procs s q)"
    "pid (procs ?s1 q) = pid (procs s q)" "current ?s1 = current s" "ticks ?s1 = ticks s"
    "ticks_cnt ?s1 = ticks_cnt s" "stderr_log ?s1 = stderr_log s" "freed ?s1 = freed s" for q
    by (simp_all add: set_status_def)
  show ?thesis
  proof (cases "age (procs s p) = lifespan (procs s p)")
    case False
    with r Some s1 have "s' = ?s1" by (simp add: retire_previous_def Let_def)
    with False Some s1 show ?thesis by simp
  next
    case True
    with r Some s1 have "exit_process sc p (set_status p PROCESS_EXIT ?s1) = Inr s'"
      by (simp add: retire_previous_def Let_def)
    from exit_process_result[OF this h] True Some show ?thesis
      by (auto simp: upd_defs)
  qed
qed


subsection \<open>Who is exited in a tick\<close>

lemma tick_exits:
  assumes sc: "sc \<in> set (schedulers MAX_PRIO)"
    and tick: "do_tick sc s = Continue s' \<or> do_tick sc s = Finished s'"
  shows "(freed s' = freed s \<and>
          (\<forall>c. current s = Some c \<longrightarrow> age (procs s c) \<noteq> lifespan (procs s c))) \<or>
         (\<exists>c. current s = Some c \<and> age (procs s c) = lifespan (procs s c) \<and>
              freed s' = insert c (freed s) \<and>
              (ticks s, Exited (pid (procs s c))) \<in> set (stderr_log s'))"
proof -
  let ?s1 = "fork_on_schedule sc s"
  from hooks_none[OF sc] have hk: "forked sc = None" "exiting sc = None" by simp_all
  from fork_on_schedule_frame[OF hk(1), of s]
  have f1: "mono_frame s ?s1" "\<forall>p. age (procs ?s1 p) = age (procs s p)" by simp_all
  from do_tick_steps[OF tick] obtain n s2 s3 where
    sch: "schedule sc ?s1 = Inr (n, s2)"
    and ret: "retire_previous sc (current ?s1) (s2\<lparr>current := n\<rparr>) = Inr s3"
    and fin: "(current s3 = None \<and> s' = s3) \<or>
              (current s3 = None \<and> s' = (print_event Idle s3)\<lparr>ticks := ticks s3 + 1\<rparr>) \<or>
              (\<exists>c s4. current s3 = Some c \<and> execute_current sc c s3 = Inr s4 \<and>
                 s' = s4\<lparr>ticks := ticks s4 + 1\<rparr>)"
    by blast
  from schedule_frame[OF sc sch] have f2: "plan_frame ?s1 s2" .
  let ?s2 = "s2\<lparr>current := n\<rparr>"
  have s2: "freed ?s2 = freed s" "ticks ?s2 = ticks s" "current ?s1 = current s"
    "age (procs ?s2 p) = age (procs s p)" "lifespan (procs ?s2 p) = lifespan (procs s p)"
    "pid (procs ?s2 p) = pid (procs s p)" for p
    using f1 f2 by (simp_all add: mono_frame_def plan_frame_def)
  have last: "freed s' = freed s3 \<and> set (stderr_log s3) \<subseteq> set (stderr_log s')"
    using fin
  proof (elim disjE exE conjE)
    fix c s4
    assume "execute_current sc c s3 = Inr s4" "s' = s4\<lparr>ticks := ticks s4 + 1\<rparr>"
    with execute_current_frame[OF sc, of c s3 s4] show ?thesis
      by (simp add: mono_frame_def)
  qed (auto simp: print_event_def)
  from retire_previous_result[OF ret hk(2)] s2 last show ?thesis
    by auto
qed

text \<open>
  Claim C2, as amended.  For each of the eight schedulers, the retire step for the
  previously running process \<open>p\<close>:
  \<^item> when its age differs from its lifespan, it is not exited (nothing is freed or logged,
    and it is no longer marked running);
  \<^item> when its age equals its lifespan and it is detached, holds no resource and has no
    pending acquisition, its status becomes \<open>PROCESS_EXIT\<close>, the exit event is logged with
    the current tick and the record is freed (the schedulers have no \<^verbatim>\<open>exiting\<close> hook);
  \<^item> when its age equals its lifespan and one of the three conditions fails, the engine stops
    on the corresponding assertion.
  Over a whole tick that does not abort, the set of freed records changes only by the
  process that ran in the previous tick, and it changes exactly when that process starts the
  tick with its age equal to its lifespan; the exit event then carries this tick's number.
  Since ages only grow in the run step of the selected process, this is the tick after the
  one whose run step brought the age to the lifespan.
\<close>

theorem exit_at_lifespan:
  assumes sc: "sc \<in> set (schedulers MAX_PRIO)"
  shows
  "(\<forall>p. age (procs s p) \<noteq> lifespan (procs s p) \<longrightarrow>
      (\<exists>s'. retire_previous sc (Some p) s = Inr s' \<and> freed s' = freed s \<and>
            stderr_log s' = stderr_log s \<and> status (procs s' p) \<noteq> PROCESS_RUNNING)) \<and>
   (\<forall>p. age (procs s p) = lifespan (procs s p) \<and> list_empty_node p s \<and>
        resources_holding (procs s p) = [] \<and> resources_to_acquire (procs s p) = [] \<longrightarrow>
      (\<exists>s'. retire_previous sc (Some p) s = Inr s' \<and> status (procs s' p) = PROCESS_EXIT \<and>
            freed s' = insert p (freed s) \<and>
            stderr_log s' = stderr_log s @ [(ticks s, Exited (pid (procs s p)))])) \<and>
   (\<forall>p. age (procs s p) = lifespan (procs s p) \<and>
        \<not> (list_empty_node p s \<and> resources_holding (procs s p) = [] \<and>
           resources_to_acquire (procs s p) = []) \<longrightarrow>
      retire_previous sc (Some p) s = Inl Assert_exit_detached \<or>
      retire_previous sc (Some p) s = Inl Assert_exit_holding \<or>
      retire_previous sc (Some p) s = Inl Assert_exit_pending) \<and>
   (\<forall>s'. do_tick sc s = Continue s' \<or> do_tick sc s = Finished s' \<longrightarrow>
      (freed s' = freed s \<and>
       (\<forall>c. current s = Some c \<longrightarrow> age (procs s c) \<noteq> lifespan (procs s c))) \<or>
      (\<exists>c. current s = Some c \<and> age (procs s c) = lifespan (procs s c) \<and>
           freed s' = insert c (freed s) \<and>
           (ticks s, Exited (pid (procs s c))) \<in> set (stderr_log s')))"
proof (intro conjI allI impI)
  fix p assume "age (procs s p) \<noteq> lifespan (procs s p)"
  then show "\<exists>s'. retire_previous sc (Some p) s = Inr s' \<and> freed s' = freed s \<and>
            stderr_log s' = stderr_log s \<and> status (procs s' p) \<noteq> PROCESS_RUNNING"
    by (simp add: retire_previous_def Let_def set_status_def)
next
  fix p
  assume h: "age (procs s p) = lifespan (procs s p) \<and> list_empty_node p s \<and>
        resources_holding (procs s p) = [] \<and> resources_to_acquire (procs s p) = []"
  let ?s1 = "if status (procs s p) = PROCESS_RUNNING then set_status p PROCESS_READY s else s"
  let ?s2 = "set_status p PROCESS_EXIT ?s1"
  have a: "list_empty_node p ?s2" "resources_holding (procs ?s2 p) = []"
    "resources_to_acquire (procs ?s2 p) = []" "age (procs ?s1 p) = lifespan (procs ?s1 p)"
    using h by (simp_all add: list_empty_node_def set_status_def)
  from hooks_none[OF sc] have hk: "exiting sc = None" by simp
  have "retire_previous sc (Some p) s = exit_process sc p ?s2"
    using a(4) by (simp add: retire_previous_def Let_def)
  also note exit_process_ok[OF a(1,2,3) hk]
  finally show "\<exists>s'. retire_previous sc (Some p) s = Inr s' \<and>
            status (procs s' p) = PROCESS_EXIT \<and> freed s' = insert p (freed s) \<and>
            stderr_log s' = stderr_log s @ [(ticks s, Exited (pid (procs s p)))]"
    by (simp add: upd_defs)
next
  fix p
  assume h: "age (procs s p) = lifespan (procs s p) \<and>
        \<not> (list_empty_node p s \<and> resources_holding (procs s p) = [] \<and>
           resources_to_acquire (procs s p) = [])"
  let ?s1 = "if status (procs s p) = PROCESS_RUNNING then set_status p PROCESS_READY s else s"
  let ?s2 = "set_status p PROCESS_EXIT ?s1"
  have a: "\<not> (list_empty_node p ?s2 \<and> resources_holding (procs ?s2 p) = [] \<and>
    resources_to_acquire (procs ?s2 p) = [])" "age (procs ?s1 p) = lifespan (procs ?s1 p)"
    using h by (simp_all add: list_empty_node_def set_status_def)
  have "retire_previous sc (Some p) s = exit_process sc p ?s2"
    using a(2) by (simp add: retire_previous_def Let_def)
  with exit_process_fails[OF a(1), of sc]
  show "retire_previous sc (Some p) s = Inl Assert_exit_detached \<or>
      retire_previous sc (Some p) s = Inl Assert_exit_holding \<or>
      retire_previous sc (Some p) s = Inl Assert_exit_pending"
    by simp
next
  fix s'
  assume "do_tick sc s = Continue s' \<or> do_tick sc s = Finished s'"
  from tick_exits[OF sc this]
  show "(freed s' = freed s \<and>
       (\<forall>c. current s = Some c \<longrightarrow> age (procs s c) \<noteq> lifespan (procs s c))) \<or>
      (\<exists>c. current s = Some c \<and> age (procs s c) = lifespan (procs s c) \<and>
           freed s' = insert c (freed s) \<and>
           (ticks s, Exited (pid (procs s c))) \<in> set (stderr_log s'))" .
qed


theorem exit_at_lifespan_witness:
  "fifo_scheduler \<in> set (schedulers 64) \<and>
   current ran_twice = Some 0 \<and> age (procs ran_twice 0) = lifespan (procs ran_twice 0) \<and>
   list_empty_node 0 ran_twice \<and> resources_holding (procs ran_twice 0) = [] \<and>
   resources_to_acquire (procs ran_twice 0) = [] \<and> ticks ran_twice = 2 \<and>
   (\<exists>s'. retire_previous fifo_scheduler (Some 0) ran_twice = Inr s' \<and>
         status (procs s' 0) = PROCESS_EXIT \<and> freed s' = insert 0 (freed ran_twice)) \<and>
   (\<exists>s'. do_tick fifo_scheduler ran_twice = Finished s' \<and>
         freed s' = insert 0 (freed ran_twice) \<and>
         (2, Exited 1) \<in> set (stderr_log s'))"
proof -
  have sc: "fifo_scheduler \<in> set (schedulers 64)"
    by (simp add: schedulers_def)
  have a: "current ran_twice = Some 0" "age (procs ran_twice 0) = lifespan (procs ran_twice 0)"
    "list_empty_node 0 ran_twice" "resources_holding (procs ran_twice 0) = []"
    "resources_to_acquire (procs ran_twice 0) = []" "ticks ran_twice = 2"
    "pid (procs ran_twice 0) = 1"
    by code_simp+
  note T = exit_at_lifespan[OF sc, of ran_twice]
  from a(2,3,4,5) have h2: "age (procs ran_twice 0) = lifespan (procs ran_twice 0) \<and>
      list_empty_node 0 ran_twice \<and> resources_holding (procs ran_twice 0) = [] \<and>
      resources_to_acquire (procs ran_twice 0) = []"
    by (intro conjI)
  from T[THEN conjunct2, THEN conjunct1, THEN spec, of 0, THEN mp, OF h2]
  have r: "\<exists>s'. retire_previous fifo_scheduler (Some 0) ran_twice = Inr s' \<and>
         status (procs s' 0) = PROCESS_EXIT \<and> freed s' = insert 0 (freed ran_twice)"
    by (elim exE conjE) (intro exI conjI, assumption+)
  have "case do_tick fifo_scheduler ran_twice of Finished s' \<Rightarrow> True | _ \<Rightarrow> False"
    by code_simp
  then obtain s' where fin: "do_tick fifo_scheduler ran_twice = Finished s'"
    by (cases "do_tick fifo_scheduler ran_twice") simp_all
  then have "do_tick fifo_scheduler ran_twice = Continue s' \<or>
      do_tick fifo_scheduler ran_twice = Finished s'" by simp
  from T[THEN conjunct2, THEN conjunct2, THEN conjunct2, THEN spec, of s', THEN mp, OF this] a(1,2,6,7)
  have "freed s' = insert 0 (freed ran_twice) \<and> (2, Exited 1) \<in> set (stderr_log s')"
    by auto
  with fin have d: "\<exists>s'. do_tick fifo_scheduler ran_twice = Finished s' \<and>
         freed s' = insert 0 (freed ran_twice) \<and> (2, Exited 1) \<in> set (stderr_log s')"
    by (intro exI[of _ s']) simp
  show ?thesis
    by (intro conjI) (rule sc a(1-6) r d)+
qed

text \<open>
  The claim as stated fails: under FIFO a process of lifespan 1 that takes resource 0 for two
  ticks has its age equal to its lifespan after the first tick; in the second tick it is not
  exited, the engine stops on the assertion that it holds no resource.
\<close>

theorem exit_aborts_holding_counterexample:
  "(case do_simulation fifo_scheduler 1 overstay of
      Continue s \<Rightarrow> current s = Some 0 \<and> age (procs s 0) = 1 \<and> lifespan (procs s 0) = 1 \<and>
        0 \<notin> freed s \<and> stderr_log s = [(0, Forked 1), (0, Acquired 1 0), (0, Ran 1)]
    | Abort e \<Rightarrow> False | Finished s \<Rightarrow> False) \<and>
   (case do_simulation fifo_scheduler 2 overstay of
      Abort e \<Rightarrow> e = Assert_exit_holding
    | Continue s \<Rightarrow> False | Finished s \<Rightarrow> False)"
  by code_simp

text \<open>
  A process of lifespan 0 is outside the amended statement: the schedulers select it without
  looking at its lifetime, its age becomes 1 and the test \<^verbatim>\<open>age == lifespan\<close> never
  holds, so the simulation ends without exiting it.
\<close>

lemma zero_lifespan_never_exits:
  "(case do_simulation fifo_scheduler 5 zero_job of
      Finished s \<Rightarrow> freed s = {} \<and> age (procs s 0) = 1 \<and> lifespan (procs s 0) = 0 \<and>
        stderr_log s = [(0, Forked 1), (0, Ran 1)]
    | Abort e \<Rightarrow> False | Continue s \<Rightarrow> False)"
  by code_simp

section \<open>Queue membership of a process\<close>


subsection \<open>Queues under the list operations\<close>

lemma list_empty_node_iff:
  "list_empty_node p s \<longleftrightarrow> p \<notin> set (readyqueue s @ forkqueue s @ waiting s)"
  by (auto simp: list_empty_node_def waiting_def list_all_iff)

lemma waiting_del:
  "concat (map waitqueue (map (\<lambda>r. r\<lparr>waitqueue := removeAll p (waitqueue r)\<rparr>) rs))
     = removeAll p (concat (map waitqueue rs))"
  by (induction rs) auto

lemma waiting_owner:
  "r < length rs \<Longrightarrow> map waitqueue (rs[r := (rs ! r)\<lparr>owner := v\<rparr>]) = map waitqueue rs"
  by (simp add: map_update list_update_same_conv)

lemma waiting_append_set:
  "r < length rs \<Longrightarrow>
   set (concat (map waitqueue (rs[r := (rs ! r)\<lparr>waitqueue := waitqueue (rs ! r) @ [p]\<rparr>])))
     = insert p (set (concat (map waitqueue rs)))"
proof (induction rs arbitrary: r)
  case Nil
  then show ?case by simp
next
  case (Cons x rs)
  then show ?case by (cases r) auto
qed

lemma waiting_append_distinct:
  "r < length rs \<Longrightarrow> distinct (concat (map waitqueue rs)) \<Longrightarrow>
   p \<notin> set (concat (map waitqueue rs)) \<Longrightarrow>
   distinct (concat (map waitqueue (rs[r := (rs ! r)\<lparr>waitqueue := waitqueue (rs ! r) @ [p]\<rparr>])))"
proof (induction rs arbitrary: r)
  case Nil
  then show ?case by simp
next
  case (Cons x rs)
  show ?case
  proof (cases r)
    case 0
    with Cons.prems show ?thesis by auto
  next
    case (Suc k)
    with Cons.prems have k: "k < length rs" and d: "distinct (concat (map waitqueue rs))"
      and p: "p \<notin> set (concat (map waitqueue rs))" by auto
    from Cons.IH[OF k d p] waiting_append_set[OF k, of p] Cons.prems Suc
    show ?thesis by auto
  qed
qed

lemma distinct_removeAll_app:
  "distinct (xs @ ys @ zs) \<Longrightarrow> distinct (removeAll p xs @ removeAll p ys @ removeAll p zs)"
  by (auto simp: distinct_removeAll)

lemma waiting_del_init: "waiting (list_del_init p s) = removeAll p (waiting s)"
  using waiting_del[of p "resources s"] by (simp add: waiting_def list_del_init_def)

lemma waiting_add_wait:
  assumes "r < length (resources s)"
  shows "set (waiting (list_add_tail p (Waitqueue r) s)) = insert p (set (waiting s))"
    and "distinct (waiting s) \<Longrightarrow> p \<notin> set (waiting s) \<Longrightarrow>
         distinct (waiting (list_add_tail p (Waitqueue r) s))"
  using assms waiting_append_set[of r "resources s" p] waiting_append_distinct[of r "resources s" p]
  by (simp_all add: waiting_def)

lemma queues_wf_del: "queues_wf s \<Longrightarrow> queues_wf (list_del_init p s)"
  using distinct_removeAll_app[of "readyqueue s" "forkqueue s" "waiting s" p]
  by (simp add: queues_wf_def waiting_del_init) (simp add: list_del_init_def)

lemma detached_del: "list_empty_node p (list_del_init p s)"
  by (simp add: list_empty_node_iff waiting_del_init) (simp add: list_del_init_def)

lemma detached_del_other: "list_empty_node c s \<Longrightarrow> list_empty_node c (list_del_init p s)"
  by (simp add: list_empty_node_iff waiting_del_init) (simp add: list_del_init_def)

lemma queues_wf_add_ready:
  "queues_wf s \<Longrightarrow> list_empty_node p s \<Longrightarrow> queues_wf (list_add_tail p Readyqueue s)"
  by (auto simp: queues_wf_def list_empty_node_iff waiting_def)

lemma queues_wf_add_ready_head:
  "queues_wf s \<Longrightarrow> list_empty_node p s \<Longrightarrow> queues_wf (list_add p Readyqueue s)"
  by (auto simp: queues_wf_def list_empty_node_iff waiting_def)

lemma queues_wf_add_wait:
  "queues_wf s \<Longrightarrow> list_empty_node p s \<Longrightarrow> r < length (resources s) \<Longrightarrow>
   queues_wf (list_add_tail p (Waitqueue r) s)"
  using waiting_add_wait[of r s p]
  by (auto simp: queues_wf_def list_empty_node_iff)

lemma queues_wf_cong:
  "readyqueue s' = readyqueue s \<Longrightarrow> forkqueue s' = forkqueue s \<Longrightarrow>
   map waitqueue (resources s') = map waitqueue (resources s) \<Longrightarrow>
   queues_wf s' = queues_wf s"
  by (simp add: queues_wf_def waiting_def)

lemma detached_cong:
  "readyqueue s' = readyqueue s \<Longrightarrow> forkqueue s' = forkqueue s \<Longrightarrow>
   map waitqueue (resources s') = map waitqueue (resources s) \<Longrightarrow>
   list_empty_node p s' = list_empty_node p s"
  by (simp add: list_empty_node_iff waiting_def)


subsection \<open>The fork step keeps the queues well formed\<close>

lemma queues_wf_move_ready: "queues_wf s \<Longrightarrow> queues_wf (list_move_tail p Readyqueue s)"
  unfolding list_move_tail_def
  by (intro queues_wf_add_ready queues_wf_del detached_del)

lemma slot_ok_fork_step:
  assumes ok: "slot_ok s" and p: "\<forall>c. current s = Some c \<longrightarrow> c \<noteq> p"
  shows "slot_ok (print_event e (set_status p PROCESS_READY (list_move_tail p Readyqueue s)))"
proof (cases "current s")
  case None
  then show ?thesis by (simp add: slot_ok_def upd_defs)
next
  case (Some c)
  with p have cp: "c \<noteq> p" by simp
  let ?s' = "print_event e (set_status p PROCESS_READY (list_move_tail p Readyqueue s))"
  have a: "current ?s' = Some c" "status (procs ?s' c) = status (procs s c)"
    "readyqueue ?s' = removeAll p (readyqueue s) @ [p]"
    "forkqueue ?s' = removeAll p (forkqueue s)"
    "waiting ?s' = removeAll p (waiting s)"
    using Some cp waiting_del_init[of p s] by (simp_all add: upd_defs waiting_def)
  from ok Some a cp show ?thesis
    by (auto simp: slot_ok_def list_empty_node_iff)
qed

lemma fork_loop_inv:
  assumes hk: "forked sc = None"
  shows "queues_wf s \<Longrightarrow> slot_ok s \<Longrightarrow> (\<forall>c. current s = Some c \<longrightarrow> c \<notin> set q) \<Longrightarrow>
         queues_wf (fork_loop sc q s) \<and> slot_ok (fork_loop sc q s)"
proof (induction q arbitrary: s)
  case Nil
  then show ?case by simp
next
  case (Cons x q)
  let ?s4 = "print_event (Forked (pid (procs s x)))
               (set_status x PROCESS_READY (list_move_tail x Readyqueue s))"
  have eq: "fork_loop sc (x # q) s =
      (if starts_at (procs s x) \<le> unat (ticks s) then fork_loop sc q ?s4 else fork_loop sc q s)"
    using hk by (simp add: Let_def upd_defs)
  have wf4: "queues_wf ?s4"
    using queues_wf_move_ready[OF Cons.prems(1), of x]
    by (simp add: queues_wf_def waiting_def upd_defs)
  have ok4: "slot_ok ?s4"
    using Cons.prems(2,3) by (intro slot_ok_fork_step) auto
  have c4: "\<forall>c. current ?s4 = Some c \<longrightarrow> c \<notin> set q"
    using Cons.prems(3) by (simp add: upd_defs)
  from Cons.prems(3) have c: "\<forall>c. current s = Some c \<longrightarrow> c \<notin> set q" by simp
  show ?case
    unfolding eq using Cons.IH[OF wf4 ok4 c4] Cons.IH[OF Cons.prems(1,2) c] by simp
qed

lemma fork_on_schedule_inv:
  assumes hk: "forked sc = None" and wf: "queues_wf s" and ok: "slot_ok s"
  shows "queues_wf (fork_on_schedule sc s) \<and> slot_ok (fork_on_schedule sc s)"
proof -
  have "\<forall>c. current s = Some c \<longrightarrow> c \<notin> set (forkqueue s)"
    using ok by (auto simp: slot_ok_def list_empty_node_iff split: option.splits)
  from fork_loop_inv[OF hk wf ok this] show ?thesis
    by (simp add: fork_on_schedule_def)
qed

subsection \<open>The four schedule functions keep the queues well formed\<close>

lemma pick_first_wf: "queues_wf s \<Longrightarrow> pick_first s = (n, s') \<Longrightarrow> queues_wf s'"
  by (auto simp: pick_first_def split: list.splits intro: queues_wf_del)

lemma shortest_pick_next_wf:
  "queues_wf s \<Longrightarrow> shortest_pick_next cnt m s = (n, s') \<Longrightarrow> queues_wf s'"
  by (auto simp: shortest_pick_next_def Let_def split: if_splits option.splits
      intro: queues_wf_del)

lemma running_detached:
  "slot_ok s \<Longrightarrow> current s = Some c \<Longrightarrow> status (procs s c) \<noteq> PROCESS_WAIT \<Longrightarrow>
   list_empty_node c s"
  by (simp add: slot_ok_def)

lemma fifo_schedule_wf:
  "queues_wf s \<Longrightarrow> fifo_schedule s = Inr (n, s') \<Longrightarrow> queues_wf s'"
  by (auto simp: fifo_schedule_def split: option.splits if_splits dest: pick_first_wf)

lemma sjf_schedule_wf:
  "queues_wf s \<Longrightarrow> sjf_schedule s = Inr (n, s') \<Longrightarrow> queues_wf s'"
  by (auto simp: sjf_schedule_def split: option.splits if_splits dest: shortest_pick_next_wf)

lemma srtf_schedule_wf:
  assumes wf: "queues_wf s" and ok: "slot_ok s" and sch: "srtf_schedule s = Inr (n, s')"
  shows "queues_wf s'"
proof -
  have pre: "queues_wf (list_add c Readyqueue (list_del_init p s))"
    if "current s = Some c" "status (procs s c) \<noteq> PROCESS_WAIT" for c p
    by (intro queues_wf_add_ready_head queues_wf_del detached_del_other
        running_detached[OF ok that] wf)
  from sch wf show ?thesis
    by (auto simp: srtf_schedule_def Let_def simp del: list_add.simps list_add_tail.simps
        split: option.splits if_splits dest: shortest_pick_next_wf[OF wf] intro: pre)
qed

lemma rr_schedule_wf:
  assumes wf: "queues_wf s" and ok: "slot_ok s" and sch: "rr_schedule s = Inr (n, s')"
  shows "queues_wf s'"
proof -
  let ?s = "s\<lparr>ticks_cnt := ticks_cnt s + 1\<rparr>"
  have wf1: "queues_wf ?s" using wf by (simp add: queues_wf_def waiting_def)
  have d1: "list_empty_node c ?s = list_empty_node c s" for c
    by (simp add: list_empty_node_iff waiting_def)
  have pre: "queues_wf (list_add_tail c Readyqueue (list_del_init p ?s))"
    if "current s = Some c" "status (procs s c) \<noteq> PROCESS_WAIT" for c p
    by (intro queues_wf_add_ready queues_wf_del detached_del_other wf1)
      (simp add: d1 running_detached[OF ok that])
  from sch wf1 show ?thesis
    by (auto simp: rr_schedule_def Let_def simp del: list_add.simps list_add_tail.simps
        split: option.splits if_splits list.splits dest: pick_first_wf[OF wf1] intro: pre)
qed

lemma fcfs_schedulers_cases:
  "sc \<in> set fcfs_schedulers \<Longrightarrow>
     acquire sc = fcfs_acquire \<and> release sc = fcfs_release \<and>
     forked sc = None \<and> exiting sc = None \<and>
     (schedule sc = fifo_schedule \<or> schedule sc = sjf_schedule \<or>
      schedule sc = srtf_schedule \<or> schedule sc = rr_schedule)"
  by (auto simp: fcfs_schedulers_def scheduler_defs)

lemma fcfs_schedulers_subset: "sc \<in> set fcfs_schedulers \<Longrightarrow> sc \<in> set (schedulers M)"
  by (auto simp: fcfs_schedulers_def schedulers_def)

lemma schedule_wf:
  assumes "sc \<in> set fcfs_schedulers" "queues_wf s" "slot_ok s" "schedule sc s = Inr (n, s')"
  shows "queues_wf s'"
  using fcfs_schedulers_cases[OF assms(1)] assms(2-)
  by (auto dest: fifo_schedule_wf sjf_schedule_wf srtf_schedule_wf rr_schedule_wf)


subsection \<open>Running a process under the default protocol\<close>

lemma run_inv_cong:
  assumes "readyqueue s' = readyqueue s" "forkqueue s' = forkqueue s"
    "map waitqueue (resources s') = map waitqueue (resources s)"
    "current s' = current s" "status (procs s' c) = status (procs s c)"
  shows "run_inv c s' = run_inv c s"
  using assms queues_wf_cong[OF assms(1-3)] detached_cong[OF assms(1-3), of c]
  by (simp add: run_inv_def)

lemma fcfs_acquire_inv:
  assumes j: "run_inv c s" and a: "fcfs_acquire rid s = Inr (b, s')"
  shows "(b \<longrightarrow> run_inv c s') \<and>
         (\<not> b \<longrightarrow> queues_wf s' \<and> current s' = Some c \<and>
            status (procs s' c) = PROCESS_WAIT \<and>
            c \<notin> set (readyqueue s') \<and> c \<notin> set (forkqueue s'))"
proof (cases "owner (resources s ! rid)")
  case None
  with a have r: "rid < length (resources s)" and s': "s' = set_owner rid (current s) s" and b: b
    by (auto simp: fcfs_acquire_def split: if_splits)
  have "run_inv c s' = run_inv c s"
    unfolding s' using r by (intro run_inv_cong) (simp_all add: set_owner_def waiting_owner)
  with j b show ?thesis by simp
next
  case (Some ow)
  from j have c: "current s = Some c" by (simp add: run_inv_def)
  with a Some have r: "rid < length (resources s)"
    and s': "s' = list_add_tail c (Waitqueue rid) (set_status c PROCESS_WAIT s)" and b: "\<not> b"
    by (auto simp: fcfs_acquire_def split: if_splits)
  let ?s1 = "set_status c PROCESS_WAIT s"
  have q: "readyqueue ?s1 = readyqueue s" "forkqueue ?s1 = forkqueue s"
    "map waitqueue (resources ?s1) = map waitqueue (resources s)"
    by (simp_all add: set_status_def)
  have wf1: "queues_wf ?s1" and d1: "list_empty_node c ?s1"
    using j queues_wf_cong[OF q] detached_cong[OF q, of c] by (simp_all add: run_inv_def)
  have r1: "rid < length (resources ?s1)" using r by (simp add: set_status_def)
  have wf: "queues_wf s'" unfolding s' by (rule queues_wf_add_wait[OF wf1 d1 r1])
  have "current s' = Some c" "status (procs s' c) = PROCESS_WAIT"
    "readyqueue s' = readyqueue s" "forkqueue s' = forkqueue s"
    using c by (simp_all add: s' set_status_def)
  with wf b j show ?thesis by (simp add: run_inv_def list_empty_node_iff)
qed

lemma waiting_member:
  "rid < length (resources s) \<Longrightarrow> w \<in> set (waitqueue (resources s ! rid)) \<Longrightarrow>
   w \<in> set (waiting s)"
  by (auto simp: waiting_def intro: bexI[of _ "resources s ! rid"])

lemma fcfs_release_inv:
  assumes j: "run_inv c s" and a: "fcfs_release rid s = Inr s'"
  shows "run_inv c s'"
proof -
  from a have r: "rid < length (resources s)"
    by (auto simp: fcfs_release_def split: if_splits)
  let ?s1 = "set_owner rid None s"
  have "run_inv c ?s1 = run_inv c s"
    using r by (intro run_inv_cong) (simp_all add: set_owner_def waiting_owner)
  with j have j1: "run_inv c ?s1" by simp
  show ?thesis
  proof (cases "waitqueue (resources ?s1 ! rid)")
    case Nil
    with a r have "s' = ?s1" by (auto simp: fcfs_release_def Let_def split: if_splits)
    with j1 show ?thesis by simp
  next
    case (Cons w rest)
    with a r have s': "s' = list_add_tail w Readyqueue
        (set_status w PROCESS_READY (list_del_init w ?s1))"
      by (auto simp: fcfs_release_def Let_def split: if_splits)
    have r1: "rid < length (resources ?s1)" using r by (simp add: set_owner_def)
    from waiting_member[OF r1, of w] Cons have "w \<in> set (waiting ?s1)" by simp
    with j1 have wc: "w \<noteq> c" by (auto simp: run_inv_def list_empty_node_iff)
    let ?s2 = "list_del_init w ?s1"
    let ?s3 = "set_status w PROCESS_READY ?s2"
    have q: "readyqueue ?s3 = readyqueue ?s2" "forkqueue ?s3 = forkqueue ?s2"
      "map waitqueue (resources ?s3) = map waitqueue (resources ?s2)"
      by (simp_all add: set_status_def)
    have wf3: "queues_wf ?s3"
      using queues_wf_del[of ?s1 w] j1 queues_wf_cong[OF q] by (simp add: run_inv_def)
    have dw: "list_empty_node w ?s3"
      using detached_del[of w ?s1] detached_cong[OF q, of w] by simp
    have dc: "list_empty_node c ?s3"
      using detached_del_other[of c ?s1 w] j1 detached_cong[OF q, of c]
      by (simp add: run_inv_def)
    have wf: "queues_wf s'" unfolding s' by (rule queues_wf_add_ready[OF wf3 dw])
    have dc': "list_empty_node c s'"
      using dc wc by (simp add: s' list_empty_node_iff waiting_def)
    have "status (procs s' c) = PROCESS_RUNNING" "current s' = Some c"
      using j1 wc by (simp_all add: s' run_inv_def upd_defs)
    with wf dc' show ?thesis by (simp add: run_inv_def)
  qed
qed

lemma acquire_loop_inv:
  assumes acq: "acquire sc = fcfs_acquire"
  shows "run_inv c s \<Longrightarrow> acquire_loop sc c kept todo s = Inr (b, s') \<Longrightarrow>
         (b \<longrightarrow> run_inv c s') \<and>
         (\<not> b \<longrightarrow> queues_wf s' \<and> current s' = Some c \<and>
            status (procs s' c) = PROCESS_WAIT \<and>
            c \<notin> set (readyqueue s') \<and> c \<notin> set (forkqueue s'))"
proof (induction todo arbitrary: kept s)
  case Nil
  then show ?case by simp
next
  case (Cons rs rest)
  show ?case
  proof (cases "at rs = int (age (procs s c))")
    case False
    with Cons.prems have "acquire_loop sc c (kept @ [rs]) rest s = Inr (b, s')" by simp
    from Cons.IH[OF Cons.prems(1) this] show ?thesis .
  next
    case True
    show ?thesis
    proof (cases "fcfs_acquire (resource_id rs) s")
      case (Inl e)
      with Cons.prems True acq show ?thesis by simp
    next
      case (Inr res)
      obtain ok s1 where res: "res = (ok, s1)" by (cases res)
      note step = fcfs_acquire_inv[OF Cons.prems(1) Inr[unfolded res]]
      show ?thesis
      proof (cases ok)
        case False
        with Cons.prems True Inr res acq have "b = False" "s' = s1" by simp_all
        with step False show ?thesis by simp
      next
        case ok: True
        define s4 where "s4 = print_event (Acquired (pid (procs s1 c)) (resource_id rs))
             (set_holding c (resources_holding (procs s1 c) @ [rs])
               (set_to_acquire c (kept @ rest) s1))"
        from Cons.prems True Inr res ok acq
        have loop: "acquire_loop sc c kept rest s4 = Inr (b, s')"
          by (simp add: s4_def Let_def upd_defs)
        have "run_inv c s4 = run_inv c s1"
          by (intro run_inv_cong) (simp_all add: s4_def upd_defs)
        with step ok have "run_inv c s4" by simp
        from Cons.IH[OF this loop] show ?thesis .
      qed
    qed
  qed
qed

lemma release_loop_inv:
  assumes rel: "release sc = fcfs_release"
  shows "run_inv c s \<Longrightarrow> release_loop sc c kept held s = Inr s' \<Longrightarrow> run_inv c s'"
proof (induction held arbitrary: kept s)
  case Nil
  then show ?case by simp
next
  case (Cons rs rest)
  let ?rs = "rs\<lparr>duration := duration rs - 1\<rparr>"
  let ?s1 = "set_holding c (kept @ ?rs # rest) s"
  have "run_inv c ?s1 = run_inv c s"
    by (intro run_inv_cong) (simp_all add: upd_defs)
  with Cons.prems have j1: "run_inv c ?s1" by simp
  show ?case
  proof (cases "duration rs - 1 = 0")
    case False
    with Cons.prems have "release_loop sc c (kept @ [?rs]) rest ?s1 = Inr s'"
      by (simp add: Let_def)
    from Cons.IH[OF j1 this] show ?thesis .
  next
    case True
    show ?thesis
    proof (cases "fcfs_release (resource_id rs) ?s1")
      case (Inl e)
      with Cons.prems True rel show ?thesis by (simp add: Let_def)
    next
      case (Inr s2)
      define s4 where "s4 = set_holding c (kept @ rest)
          (print_event (Released (pid (procs s2 c)) (resource_id rs)) s2)"
      from Cons.prems True Inr rel have loop: "release_loop sc c kept rest s4 = Inr s'"
        by (simp add: Let_def s4_def)
      have "run_inv c s4 = run_inv c s2"
        by (intro run_inv_cong) (simp_all add: s4_def upd_defs)
      with fcfs_release_inv[OF j1 Inr] have "run_inv c s4" by simp
      from Cons.IH[OF this loop] show ?thesis .
    qed
  qed
qed


lemma execute_current_inv:
  assumes sc: "sc \<in> set fcfs_schedulers" and wf: "queues_wf s" and cur: "current s = Some c"
    and ex: "execute_current sc c s = Inr s'"
  shows "queues_wf s' \<and> slot_ok s'"
proof -
  from fcfs_schedulers_cases[OF sc] have acq: "acquire sc = fcfs_acquire"
    and rel: "release sc = fcfs_release" by simp_all
  let ?s1 = "set_status c PROCESS_RUNNING s"
  from ex have det: "list_empty_node c ?s1"
    by (auto simp: execute_current_def Let_def split: if_splits)
  have q: "readyqueue ?s1 = readyqueue s" "forkqueue ?s1 = forkqueue s"
    "map waitqueue (resources ?s1) = map waitqueue (resources s)"
    by (simp_all add: set_status_def)
  have j1: "run_inv c ?s1"
    using wf cur det queues_wf_cong[OF q] by (simp add: run_inv_def set_status_def)
  from ex obtain b s2 where a: "run_current_acquire sc c ?s1 = Inr (b, s2)"
    by (auto simp: execute_current_def Let_def split: if_splits sum.splits)
  note step = acquire_loop_inv[OF acq j1 a[unfolded run_current_acquire_def]]
  show ?thesis
  proof (cases b)
    case False
    with ex a have s': "s' = print_event (Blocked (pid (procs s2 c))) s2"
      by (auto simp: execute_current_def Let_def split: if_splits)
    have "queues_wf s' = queues_wf s2"
      by (intro queues_wf_cong) (simp_all add: s' print_event_def)
    with step False show ?thesis
      by (simp add: slot_ok_def s' print_event_def)
  next
    case True
    let ?s4 = "set_age c (age (procs s2 c) + 1) (print_event (Ran (pid (procs s2 c))) s2)"
    from ex a True have r: "run_current_release sc c ?s4 = Inr s'"
      by (auto simp: execute_current_def Let_def print_event_def split: if_splits)
    have "run_inv c ?s4 = run_inv c s2"
      by (intro run_inv_cong) (simp_all add: upd_defs)
    with step True have "run_inv c ?s4" by simp
    from release_loop_inv[OF rel this r[unfolded run_current_release_def]]
    show ?thesis by (simp add: run_inv_def slot_ok_def)
  qed
qed

lemma do_tick_inv:
  assumes sc: "sc \<in> set fcfs_schedulers" and wf: "queues_wf s" and ok: "slot_ok s"
    and tick: "do_tick sc s = Continue s' \<or> do_tick sc s = Finished s'"
  shows "queues_wf s' \<and> slot_ok s'"
proof -
  let ?s1 = "fork_on_schedule sc s"
  from fcfs_schedulers_cases[OF sc] have hk: "forked sc = None" "exiting sc = None"
    by simp_all
  from fork_on_schedule_inv[OF hk(1) wf ok] have i1: "queues_wf ?s1" "slot_ok ?s1"
    by simp_all
  from do_tick_steps[OF tick] obtain n s2 s3 where
    sch: "schedule sc ?s1 = Inr (n, s2)"
    and ret: "retire_previous sc (current ?s1) (s2\<lparr>current := n\<rparr>) = Inr s3"
    and fin: "(current s3 = None \<and> s' = s3) \<or>
              (current s3 = None \<and> s' = (print_event Idle s3)\<lparr>ticks := ticks s3 + 1\<rparr>) \<or>
              (\<exists>c s4. current s3 = Some c \<and> execute_current sc c s3 = Inr s4 \<and>
                 s' = s4\<lparr>ticks := ticks s4 + 1\<rparr>)"
    by blast
  from schedule_wf[OF sc i1 sch] have wf2: "queues_wf s2" .
  from retire_previous_queues[OF ret hk(2)]
  have q3: "readyqueue s3 = readyqueue s2" "forkqueue s3 = forkqueue s2"
    "resources s3 = resources s2" by simp_all
  have wf3: "queues_wf s3"
    using wf2 q3 by (simp add: queues_wf_def waiting_def)
  from fin show ?thesis
  proof (elim disjE exE conjE)
    assume "current s3 = None" "s' = s3"
    with wf3 show ?thesis by (simp add: slot_ok_def)
  next
    assume "current s3 = None" "s' = (print_event Idle s3)\<lparr>ticks := ticks s3 + 1\<rparr>"
    with wf3 show ?thesis by (simp add: slot_ok_def queues_wf_def waiting_def print_event_def)
  next
    fix c s4
    assume c: "current s3 = Some c" and e: "execute_current sc c s3 = Inr s4"
      and s': "s' = s4\<lparr>ticks := ticks s4 + 1\<rparr>"
    from execute_current_inv[OF sc wf3 c e] have "queues_wf s4" "slot_ok s4" by simp_all
    then show ?thesis
      by (simp add: s' slot_ok_def queues_wf_def waiting_def list_empty_node_def
          split: option.splits)
  qed
qed

lemma initial_state_inv: "queues_wf (initial_state nr ps) \<and> slot_ok (initial_state nr ps)"
  by (simp add: initial_state_def queues_wf_def slot_ok_def waiting_def map_fst_enumerate)

lemma do_simulation_inv:
  assumes sc: "sc \<in> set fcfs_schedulers"
  shows "queues_wf s \<Longrightarrow> slot_ok s \<Longrightarrow>
         do_simulation sc n s = Continue s' \<or> do_simulation sc n s = Finished s' \<Longrightarrow>
         queues_wf s' \<and> slot_ok s'"
proof (induction n arbitrary: s)
  case 0
  then show ?case by simp
next
  case (Suc n)
  show ?case
  proof (cases "do_tick sc s")
    case (Abort e)
    with Suc.prems show ?thesis by simp
  next
    case (Finished s1)
    with Suc.prems have "s' = s1" by simp
    with do_tick_inv[OF sc Suc.prems(1,2), of s1] Finished show ?thesis by simp
  next
    case (Continue s1)
    with do_tick_inv[OF sc Suc.prems(1,2), of s1] have i: "queues_wf s1" "slot_ok s1"
      by simp_all
    from Suc.prems(3) Continue
    have "do_simulation sc n s1 = Continue s' \<or> do_simulation sc n s1 = Finished s'"
      by simp
    from Suc.IH[OF i this] show ?thesis .
  qed
qed

text \<open>
  Claim C4, as amended.  Under each of the four schedulers that use the default
  first-come-first-served resource protocol (FIFO, SJF, SRTF and Round-Robin), every state
  that the simulation reaches from an initial state, after any number of ticks and whether it
  then continues or has finished, has these two properties:
  \<^item> the ready queue, the fork queue and the wait queues of all resources, taken together,
    hold no process twice: a process is linked into at most one queue, and at most once;
  \<^item> the process in the running slot, if any, is linked into no queue at all, unless its
    acquisition blocked in this tick: then it is marked waiting and is linked into a wait
    queue only, neither into the ready queue nor into the fork queue.
\<close>

theorem fcfs_queue_exclusion:
  assumes "sc \<in> set fcfs_schedulers"
    and "do_simulation sc n (initial_state nr ps) = Continue s \<or>
         do_simulation sc n (initial_state nr ps) = Finished s"
  shows "queues_wf s \<and> slot_ok s"
  using do_simulation_inv[OF assms(1) _ _ assms(2)] initial_state_inv[of nr ps]
  by simp

text \<open>
  Round-Robin with two processes that both take resource 0 at age 0: after two ticks the
  second process has blocked; it occupies the slot, marked waiting, and is linked into the wait
  queue of resource 0 only, while the first process is in the ready queue.
\<close>

theorem fcfs_queue_exclusion_witness:
  "rr_scheduler \<in> set fcfs_schedulers \<and>
   (\<exists>s. do_simulation rr_scheduler 2 rivals = Continue s \<and>
        current s = Some 1 \<and> status (procs s 1) = PROCESS_WAIT \<and>
        readyqueue s = [0] \<and> waitqueue (resources s ! 0) = [1] \<and>
        queues_wf s \<and> slot_ok s)"
proof -
  have sc: "rr_scheduler \<in> set fcfs_schedulers"
    by (simp add: fcfs_schedulers_def)
  have "case do_simulation rr_scheduler 2 rivals of
          Continue s \<Rightarrow> current s = Some 1 \<and> status (procs s 1) = PROCESS_WAIT \<and>
            readyqueue s = [0] \<and> waitqueue (resources s ! 0) = [1]
        | _ \<Rightarrow> False"
    by code_simp
  then obtain s where s: "do_simulation rr_scheduler 2 rivals = Continue s"
    and f: "current s = Some 1 \<and> status (procs s 1) = PROCESS_WAIT \<and>
            readyqueue s = [0] \<and> waitqueue (resources s ! 0) = [1]"
    by (cases "do_simulation rr_scheduler 2 rivals") simp_all
  from s have "do_simulation rr_scheduler 2 (initial_state 1
       [new_process 1 3 0 0 [\<lparr>resource_id = 0, at = 0, duration = 2\<rparr>],
        new_process 2 3 0 0 [\<lparr>resource_id = 0, at = 0, duration = 1\<rparr>]]) = Continue s \<or>
     do_simulation rr_scheduler 2 (initial_state 1
       [new_process 1 3 0 0 [\<lparr>resource_id = 0, at = 0, duration = 2\<rparr>],
        new_process 2 3 0 0 [\<lparr>resource_id = 0, at = 0, duration = 1\<rparr>]]) = Finished s"
    by (simp add: rivals_def)
  from fcfs_queue_exclusion[OF sc this] have "queues_wf s \<and> slot_ok s" .
  with sc s f show ?thesis by (intro conjI exI[of _ s]) simp_all
qed

text \<open>
  The claim as stated fails for the priority protocols, whose acquire function links the
  running process into the ready queue when it gets the resource: under the Priority scheduler
  a single process that takes resource 0 at age 0 has, after the first tick, run for that tick
  and owns the resource; it is in the running slot and in the ready queue at the same time.
\<close>

theorem running_process_queued_counterexample:
  "(case do_simulation prio_scheduler 1 grabber of
      Continue s \<Rightarrow> current s = Some 0 \<and> readyqueue s = [0] \<and>
        owner (resources s ! 0) = Some 0 \<and> age (procs s 0) = 1 \<and>
        stderr_log s = [(0, Forked 1), (0, Acquired 1 0), (0, Ran 1)] \<and>
        \<not> exclusive_membership s \<and> \<not> slot_ok s
    | Abort e \<Rightarrow> False | Finished s \<Rightarrow> False)"
  by code_simp

section \<open>Round-Robin\<close>

lemma do_simulation_reach:
  assumes step: "\<And>s s'. P s \<Longrightarrow> do_tick sc s = Continue s' \<Longrightarrow> P s'"
  shows "P s \<Longrightarrow> do_simulation sc n s = Continue s' \<Longrightarrow> P s'"
proof (induction n arbitrary: s)
  case 0
  then show ?case by simp
next
  case (Suc n)
  from Suc.prems(2) obtain s1 where t: "do_tick sc s = Continue s1"
    and r: "do_simulation sc n s1 = Continue s'"
    by (cases "do_tick sc s") simp_all
  from Suc.IH[OF step[OF Suc.prems(1) t] r] show ?case .
qed

lemma fcfs_acquire_ticks_cnt:
  "fcfs_acquire rid s = Inr (b, s') \<Longrightarrow> ticks_cnt s' = ticks_cnt s"
  by (auto simp: fcfs_acquire_def upd_defs Let_def split: if_splits option.splits)

lemma fcfs_release_ticks_cnt:
  "fcfs_release rid s = Inr s' \<Longrightarrow> ticks_cnt s' = ticks_cnt s"
  by (auto simp: fcfs_release_def upd_defs list_del_init_def Let_def
      split: if_splits option.splits list.splits)

lemma acquire_loop_ticks_cnt:
  assumes acq: "acquire sc = fcfs_acquire"
  shows "acquire_loop sc c kept todo s = Inr (b, s') \<Longrightarrow> ticks_cnt s' = ticks_cnt s"
proof (induction todo arbitrary: kept s)
  case Nil
  then show ?case by simp
next
  case (Cons rs rest)
  show ?case
  proof (cases "at rs = int (age (procs s c))")
    case False
    with Cons.prems have "acquire_loop sc c (kept @ [rs]) rest s = Inr (b, s')" by simp
    then show ?thesis by (rule Cons.IH)
  next
    case True
    show ?thesis
    proof (cases "fcfs_acquire (resource_id rs) s")
      case (Inl e)
      with Cons.prems True acq show ?thesis by simp
    next
      case (Inr res)
      obtain ok s1 where res: "res = (ok, s1)" by (cases res)
      from Inr res have t1: "ticks_cnt s1 = ticks_cnt s" by (simp add: fcfs_acquire_ticks_cnt)
      show ?thesis
      proof (cases ok)
        case False
        with Cons.prems True acq Inr res have "s' = s1" by simp
        with t1 show ?thesis by simp
      next
        case ok: True
        let ?s2 = "set_to_acquire c (kept @ rest) s1"
        let ?s3 = "set_holding c (resources_holding (procs ?s2 c) @ [rs]) ?s2"
        let ?s4 = "print_event (Acquired (pid (procs ?s3 c)) (resource_id rs)) ?s3"
        from Cons.prems True acq Inr res ok
        have "acquire_loop sc c kept rest ?s4 = Inr (b, s')"
          by (simp add: Let_def)
        from Cons.IH[OF this] t1 show ?thesis by (simp add: upd_defs)
      qed
    qed
  qed
qed

lemma release_loop_ticks_cnt:
  assumes rel: "release sc = fcfs_release"
  shows "release_loop sc c kept held s = Inr s' \<Longrightarrow> ticks_cnt s' = ticks_cnt s"
proof (induction held arbitrary: kept s)
  case Nil
  then show ?case by simp
next
  case (Cons rs rest)
  let ?rs = "rs\<lparr>duration := duration rs - 1\<rparr>"
  let ?s1 = "set_holding c (kept @ ?rs # rest) s"
  have t1: "ticks_cnt ?s1 = ticks_cnt s" by (simp add: upd_defs)
  show ?case
  proof (cases "duration rs - 1 = 0")
    case False
    with Cons.prems have "release_loop sc c (kept @ [?rs]) rest ?s1 = Inr s'"
      by (simp add: Let_def)
    from Cons.IH[OF this] t1 show ?thesis by simp
  next
    case True
    show ?thesis
    proof (cases "fcfs_release (resource_id rs) ?s1")
      case (Inl e)
      with Cons.prems True rel show ?thesis by (simp add: Let_def)
    next
      case (Inr s2)
      let ?s3 = "print_event (Released (pid (procs s2 c)) (resource_id rs)) s2"
      let ?s4 = "set_holding c (kept @ rest) ?s3"
      from Cons.prems True rel Inr have "release_loop sc c kept rest ?s4 = Inr s'"
        by (simp add: Let_def)
      from Cons.IH[OF this] fcfs_release_ticks_cnt[OF Inr] t1 show ?thesis
        by (simp add: upd_defs)
    qed
  qed
qed

lemma execute_current_ticks_cnt:
  assumes acq: "acquire sc = fcfs_acquire" and rel: "release sc = fcfs_release"
    and ex: "execute_current sc c s = Inr s'"
  shows "ticks_cnt s' = ticks_cnt s"
proof -
  let ?s1 = "set_status c PROCESS_RUNNING s"
  from ex obtain b s2 where a: "run_current_acquire sc c ?s1 = Inr (b, s2)"
    by (auto simp: execute_current_def Let_def split: if_splits sum.splits)
  from acquire_loop_ticks_cnt[OF acq a[unfolded run_current_acquire_def]]
  have t2: "ticks_cnt s2 = ticks_cnt s" by (simp add: upd_defs)
  show ?thesis
  proof (cases b)
    case False
    with ex a have "s' = print_event (Blocked (pid (procs s2 c))) s2"
      by (auto simp: execute_current_def Let_def split: if_splits)
    with t2 show ?thesis by (simp add: upd_defs)
  next
    case True
    let ?s3 = "print_event (Ran (pid (procs s2 c))) s2"
    let ?s4 = "set_age c (age (procs ?s3 c) + 1) ?s3"
    from ex a True have "run_current_release sc c ?s4 = Inr s'"
      by (auto simp: execute_current_def Let_def split: if_splits)
    from release_loop_ticks_cnt[OF rel this[unfolded run_current_release_def]] t2
    show ?thesis by (simp add: upd_defs)
  qed
qed

lemma rr_schedule_ticks_cnt:
  "rr_schedule s = Inr (n, s') \<Longrightarrow> ticks_cnt s' = ticks_cnt s + 1"
  by (auto simp: rr_schedule_def Let_def pick_first_def list_del_init_def
      split: option.splits if_splits list.splits)

lemma rr_tick_counter:
  assumes tick: "do_tick rr_scheduler s = Continue s'"
  shows "ticks_cnt s' = ticks_cnt s + 1 \<and> ticks s' = ticks s + 1"
proof -
  let ?sc = "rr_scheduler"
  let ?s1 = "fork_on_schedule ?sc s"
  have sc: "?sc \<in> set fcfs_schedulers" by (simp add: fcfs_schedulers_def)
  have sc8: "?sc \<in> set (schedulers 0)" by (simp add: schedulers_def)
  from fcfs_schedulers_cases[OF sc] have hk: "forked ?sc = None" "exiting ?sc = None"
    and acq: "acquire ?sc = fcfs_acquire" and rel: "release ?sc = fcfs_release"
    by simp_all
  have sch: "schedule ?sc = rr_schedule" by (simp add: rr_scheduler_def)
  from fork_on_schedule_frame[OF hk(1), of s]
  have f1: "ticks ?s1 = ticks s" "ticks_cnt ?s1 = ticks_cnt s"
    by (simp_all add: mono_frame_def)
  from do_tick_steps[of ?sc s s'] tick obtain n s2 s3 where
    s2: "rr_schedule ?s1 = Inr (n, s2)"
    and ret: "retire_previous ?sc (current ?s1) (s2\<lparr>current := n\<rparr>) = Inr s3"
    and fin: "(current s3 = None \<and> s' = (print_event Idle s3)\<lparr>ticks := ticks s3 + 1\<rparr>) \<or>
              (\<exists>c s4. current s3 = Some c \<and> execute_current ?sc c s3 = Inr s4 \<and>
                 s' = s4\<lparr>ticks := ticks s4 + 1\<rparr>)"
    unfolding sch by auto
  from rr_schedule_ticks_cnt[OF s2] rr_schedule_frame[OF s2]
  have f2: "ticks_cnt s2 = ticks_cnt ?s1 + 1" "ticks s2 = ticks ?s1"
    by (simp_all add: plan_frame_def)
  from retire_previous_result[OF ret hk(2)]
  have f3: "ticks s3 = ticks s2" "ticks_cnt s3 = ticks_cnt s2" by simp_all
  from fin show ?thesis
  proof (elim disjE exE conjE)
    assume "s' = (print_event Idle s3)\<lparr>ticks := ticks s3 + 1\<rparr>"
    with f1 f2 f3 show ?thesis by (simp add: print_event_def)
  next
    fix c s4
    assume e: "execute_current ?sc c s3 = Inr s4" and s': "s' = s4\<lparr>ticks := ticks s4 + 1\<rparr>"
    from execute_current_ticks_cnt[OF acq rel e] execute_current_frame[OF sc8 e]
    have "ticks_cnt s4 = ticks_cnt s3" "ticks s4 = ticks s3" by (simp_all add: mono_frame_def)
    with f1 f2 f3 s' show ?thesis by simp
  qed
qed

lemma rr_reach_tick:
  assumes "rr_reach s" "do_tick rr_scheduler s = Continue s'"
  shows "rr_reach s'"
proof -
  have sc: "rr_scheduler \<in> set fcfs_schedulers" by (simp add: fcfs_schedulers_def)
  from do_tick_inv[OF sc, of s s'] assms rr_tick_counter[OF assms(2)]
  show ?thesis by (simp add: rr_reach_def)
qed

lemma rr_reachable:
  assumes "do_simulation rr_scheduler n (initial_state nr ps) = Continue s"
  shows "queues_wf s \<and> slot_ok s \<and> ticks_cnt s + 1 = ticks s"
proof -
  have "rr_reach (initial_state nr ps)"
    using initial_state_inv[of nr ps] by (simp add: rr_reach_def initial_state_def)
  from do_simulation_reach[of rr_reach rr_scheduler, OF rr_reach_tick this assms]
  show ?thesis by (simp add: rr_reach_def)
qed

lemma rr_schedule_rotate:
  assumes wf: "queues_wf s" and ok: "slot_ok s" and t: "ticks_cnt s + 1 = ticks s"
    and run: "running s c"
  shows "list_empty_node c s \<and>
         (\<forall>p rest. readyqueue s = p # rest \<longrightarrow>
            (\<exists>s'. rr_schedule s = Inr (Some p, s') \<and> readyqueue s' = rest @ [c] \<and>
                  forkqueue s' = forkqueue s \<and> resources s' = resources s \<and>
                  procs s' = procs s)) \<and>
         (readyqueue s = [] \<longrightarrow>
            (\<exists>s'. rr_schedule s = Inr (Some c, s') \<and> readyqueue s' = [] \<and>
                  forkqueue s' = forkqueue s \<and> resources s' = resources s \<and>
                  procs s' = procs s))"
proof (intro conjI allI impI)
  from run have c: "current s = Some c" "status (procs s c) \<noteq> PROCESS_WAIT"
    "age (procs s c) < lifespan (procs s c)" by (simp_all add: running_def)
  from running_detached[OF ok c(1,2)] show "list_empty_node c s" .
  {
    fix p rest assume rq: "readyqueue s = p # rest"
    with wf have d: "p \<notin> set rest" "p \<notin> set (forkqueue s)" "p \<notin> set (waiting s)"
      by (auto simp: queues_wf_def)
    have w: "map (\<lambda>r. r\<lparr>waitqueue := removeAll p (waitqueue r)\<rparr>) (resources s) = resources s"
      using d(3) by (auto simp: waiting_def intro!: map_idI)
    let ?s' = "list_add_tail c Readyqueue (list_del_init p (s\<lparr>ticks_cnt := ticks_cnt s + 1\<rparr>))"
    have "rr_schedule s = Inr (Some p, ?s')"
      using c rq t by (simp add: rr_schedule_def Let_def)
    moreover have "readyqueue ?s' = rest @ [c]" "forkqueue ?s' = forkqueue s"
      "resources ?s' = resources s" "procs ?s' = procs s"
      using rq d w by (simp_all add: list_del_init_def)
    ultimately show "\<exists>s'. rr_schedule s = Inr (Some p, s') \<and> readyqueue s' = rest @ [c] \<and>
                  forkqueue s' = forkqueue s \<and> resources s' = resources s \<and>
                  procs s' = procs s"
      by (intro exI[of _ ?s']) simp
  }
  {
    assume rq: "readyqueue s = []"
    let ?s' = "s\<lparr>ticks_cnt := ticks_cnt s + 1\<rparr>"
    have "rr_schedule s = Inr (Some c, ?s')"
      using c rq t by (simp add: rr_schedule_def Let_def)
    then show "\<exists>s'. rr_schedule s = Inr (Some c, s') \<and> readyqueue s' = [] \<and>
                  forkqueue s' = forkqueue s \<and> resources s' = resources s \<and>
                  procs s' = procs s"
      using rq by (intro exI[of _ ?s']) simp
  }
qed


lemma rr_alternation:
  "(case do_simulation rr_scheduler 7
           (initial_state nr [new_process a 3 pa 0 [], new_process b 3 pb 0 []]) of
      Finished s' \<Rightarrow> run_order s' = [(0, a), (1, b), (2, a), (3, b), (4, a), (5, b)]
    | Abort e \<Rightarrow> False | Continue s' \<Rightarrow> False)"
  by (simp add: eval_nat_numeral do_tick_def fork_on_schedule_def initial_state_def
      new_process_def rr_scheduler_def rr_schedule_def pick_first_def retire_previous_def
      exit_process_def execute_current_def run_current_acquire_def run_current_release_def
      upd_defs list_empty_node_def run_order_def Let_def enumerate_eq_zip list_all_iff)

text \<open>
  Claim C6.  Take any state \<open>s\<close> that a Round-Robin simulation has reached from an
  initial state and in which it goes on, and let \<open>s1\<close> be \<open>s\<close> after the fork step of
  the next tick, the state \<^verbatim>\<open>rr_schedule\<close> is called in.  When a process \<open>c\<close> is running
  in \<open>s1\<close> (it is in the slot, not waiting, and its age is below its lifespan), then
  \<open>c\<close> is linked into no queue, and
  \<^item> if the ready queue is \<open>p # rest\<close>, \<^verbatim>\<open>rr_schedule\<close> returns its head \<open>p\<close> and leaves
    the ready queue \<open>rest @ [c]\<close>: the head is taken out and the runner is put at the tail;
    the fork queue, the resources and the process records are unchanged;
  \<^item> if the ready queue is empty, \<^verbatim>\<open>rr_schedule\<close> returns \<open>c\<close> and changes no queue.
  For two processes of lifespan 3 without resource requests, both due at tick 0, with any
  pids \<open>a\<close> and \<open>b\<close>, any priorities and any number of resources, the simulation ends in
  its seventh round and the processes have run in the order \<open>a, b, a, b, a, b\<close> at the ticks
  0 to 5.
\<close>

theorem rr_rotation:
  assumes "do_simulation rr_scheduler n (initial_state nr ps) = Continue s"
    and "running (fork_on_schedule rr_scheduler s) c"
  shows "list_empty_node c (fork_on_schedule rr_scheduler s) \<and>
         (\<forall>p rest. readyqueue (fork_on_schedule rr_scheduler s) = p # rest \<longrightarrow>
            (\<exists>s'. schedule rr_scheduler (fork_on_schedule rr_scheduler s) = Inr (Some p, s') \<and>
                  readyqueue s' = rest @ [c] \<and>
                  forkqueue s' = forkqueue (fork_on_schedule rr_scheduler s) \<and>
                  resources s' = resources (fork_on_schedule rr_scheduler s) \<and>
                  procs s' = procs (fork_on_schedule rr_scheduler s))) \<and>
         (readyqueue (fork_on_schedule rr_scheduler s) = [] \<longrightarrow>
            (\<exists>s'. schedule rr_scheduler (fork_on_schedule rr_scheduler s) = Inr (Some c, s') \<and>
                  readyqueue s' = [] \<and>
                  forkqueue s' = forkqueue (fork_on_schedule rr_scheduler s) \<and>
                  resources s' = resources (fork_on_schedule rr_scheduler s) \<and>
                  procs s' = procs (fork_on_schedule rr_scheduler s))) \<and>
         (case do_simulation rr_scheduler 7
                 (initial_state nr' [new_process a 3 pa 0 [], new_process b 3 pb 0 []]) of
            Finished s' \<Rightarrow>
              run_order s' = [(0, a), (1, b), (2, a), (3, b), (4, a), (5, b)]
          | Abort e \<Rightarrow> False | Continue s' \<Rightarrow> False)"
proof -
  let ?s1 = "fork_on_schedule rr_scheduler s"
  have sch: "schedule rr_scheduler = rr_schedule" and hk: "forked rr_scheduler = None"
    by (simp_all add: rr_scheduler_def)
  from rr_reachable[OF assms(1)] have r: "queues_wf s" "slot_ok s" "ticks_cnt s + 1 = ticks s"
    by simp_all
  from fork_on_schedule_inv[OF hk r(1,2)] have i1: "queues_wf ?s1" "slot_ok ?s1" by simp_all
  from fork_on_schedule_frame[OF hk, of s] r(3) have t1: "ticks_cnt ?s1 + 1 = ticks ?s1"
    by (simp add: mono_frame_def)
  note rot = rr_schedule_rotate[OF i1 t1 assms(2)]
  show ?thesis
    unfolding sch
    by (intro conjI rot[THEN conjunct1] rot[THEN conjunct2, THEN conjunct1]
        rot[THEN conjunct2, THEN conjunct2] rr_alternation)
qed

text \<open>
  The two cases on runs of one round: with \<open>rr_pair\<close> the first process runs and the second
  is the head of the ready queue, with \<open>short_job\<close> the ready queue is empty.
\<close>

theorem rr_rotation_witness:
  "(\<exists>s. do_simulation rr_scheduler 1 rr_pair = Continue s \<and>
        running (fork_on_schedule rr_scheduler s) 0 \<and>
        readyqueue (fork_on_schedule rr_scheduler s) = [1] \<and>
        (\<exists>s'. schedule rr_scheduler (fork_on_schedule rr_scheduler s) = Inr (Some 1, s') \<and>
              readyqueue s' = [0])) \<and>
   (\<exists>s. do_simulation rr_scheduler 1 short_job = Continue s \<and>
        running (fork_on_schedule rr_scheduler s) 0 \<and>
        readyqueue (fork_on_schedule rr_scheduler s) = [] \<and>
        (\<exists>s'. schedule rr_scheduler (fork_on_schedule rr_scheduler s) = Inr (Some 0, s') \<and>
              readyqueue s' = []))"
proof (rule conjI)
  have "case do_simulation rr_scheduler 1 rr_pair of
          Continue s \<Rightarrow> running (fork_on_schedule rr_scheduler s) 0 \<and>
            readyqueue (fork_on_schedule rr_scheduler s) = [1]
        | _ \<Rightarrow> False"
    by code_simp
  then obtain s where s: "do_simulation rr_scheduler 1 rr_pair = Continue s"
    and run: "running (fork_on_schedule rr_scheduler s) 0"
    and rq: "readyqueue (fork_on_schedule rr_scheduler s) = [1]"
    by (cases "do_simulation rr_scheduler 1 rr_pair") simp_all
  from s have s0: "do_simulation rr_scheduler 1
      (initial_state 1 [new_process 1 3 0 0 [], new_process 2 3 0 0 []]) = Continue s"
    by (simp add: rr_pair_def)
  from rr_rotation[OF s0 run, THEN conjunct2, THEN conjunct1, THEN spec, THEN spec, THEN mp, OF rq]
  have "\<exists>s'. schedule rr_scheduler (fork_on_schedule rr_scheduler s) = Inr (Some 1, s') \<and>
              readyqueue s' = [0]"
    by auto
  with s run rq show "\<exists>s. do_simulation rr_scheduler 1 rr_pair = Continue s \<and>
        running (fork_on_schedule rr_scheduler s) 0 \<and>
        readyqueue (fork_on_schedule rr_scheduler s) = [1] \<and>
        (\<exists>s'. schedule rr_scheduler (fork_on_schedule rr_scheduler s) = Inr (Some 1, s') \<and>
              readyqueue s' = [0])"
    by (intro exI[of _ s]) (intro conjI; assumption)
next
  have "case do_simulation rr_scheduler 1 short_job of
          Continue s \<Rightarrow> running (fork_on_schedule rr_scheduler s) 0 \<and>
            readyqueue (fork_on_schedule rr_scheduler s) = []
        | _ \<Rightarrow> False"
    by code_simp
  then obtain s where s: "do_simulation rr_scheduler 1 short_job = Continue s"
    and run: "running (fork_on_schedule rr_scheduler s) 0"
    and rq: "readyqueue (fork_on_schedule rr_scheduler s) = []"
    by (cases "do_simulation rr_scheduler 1 short_job") simp_all
  from s have s0: "do_simulation rr_scheduler 1
      (initial_state 1 [new_process 1 2 0 0 []]) = Continue s"
    by (simp add: short_job_def)
  from rr_rotation[OF s0 run, THEN conjunct2, THEN conjunct2, THEN conjunct1, THEN mp, OF rq]
  have "\<exists>s'. schedule rr_scheduler (fork_on_schedule rr_scheduler s) = Inr (Some 0, s') \<and>
              readyqueue s' = []"
    by auto
  with s run rq show "\<exists>s. do_simulation rr_scheduler 1 short_job = Continue s \<and>
        running (fork_on_schedule rr_scheduler s) 0 \<and>
        readyqueue (fork_on_schedule rr_scheduler s) = [] \<and>
        (\<exists>s'. schedule rr_scheduler (fork_on_schedule rr_scheduler s) = Inr (Some 0, s') \<and>
              readyqueue s' = [])"
    by (intro exI[of _ s]) (intro conjI; assumption)
qed

section \<open>Shortest remaining time first\<close>

lemma do_simulation_numeral:
  "do_simulation sc (numeral k) s =
     (case do_tick sc s of
        Continue s' \<Rightarrow> do_simulation sc (pred_numeral k) s'
      | Abort e \<Rightarrow> Abort e
      | Finished s' \<Rightarrow> Finished s')"
  by (simp add: numeral_eq_Suc)

lemma sint_remaining:
  assumes "age p < lifespan p" "lifespan p \<le> 1000"
  shows "sint (remaining_word p) = int (lifespan p) - int (age p)"
proof -
  define k where "k = lifespan p - age p"
  have k: "int k = int (lifespan p) - int (age p)" "k \<le> 1000"
    using assms by (simp_all add: k_def)
  have "word_of_nat k = (word_of_nat (lifespan p) - word_of_nat (age p) :: 32 word)"
    unfolding k_def using assms(1) by (simp add: of_nat_diff)
  then have "remaining_word p = word_of_nat k"
    by (simp add: remaining_word_def)
  moreover have "sint (word_of_nat k :: 32 word) = signed_take_bit 31 (int k)"
    by (simp add: signed_of_nat)
  moreover have "signed_take_bit 31 (int k) = int k"
    using k(2) by (simp add: signed_take_bit_int_eq_self_iff)
  ultimately show ?thesis
    using k(1) by simp
qed

lemma min_lifespan_Cons:
  "min_lifespan m (x # q) s =
     min_lifespan (if m > lifespan (procs s x) then lifespan (procs s x) else m) q s"
  by (simp add: min_lifespan_def)

lemma min_lifespan_le: "min_lifespan m q s \<le> m"
proof (induction q arbitrary: m)
  case Nil
  show ?case by (simp add: min_lifespan_def)
next
  case (Cons x q)
  from Cons[of "if m > lifespan (procs s x) then lifespan (procs s x) else m"]
  show ?case unfolding min_lifespan_Cons by (auto split: if_splits)
qed

lemma min_lifespan_lower: "x \<in> set q \<Longrightarrow> min_lifespan m q s \<le> lifespan (procs s x)"
proof (induction q arbitrary: m)
  case Nil
  then show ?case by simp
next
  case (Cons y q)
  let ?m = "if m > lifespan (procs s y) then lifespan (procs s y) else m"
  show ?case
  proof (cases "x = y")
    case True
    from min_lifespan_le[of ?m q s] True show ?thesis
      unfolding min_lifespan_Cons by (auto split: if_splits)
  next
    case False
    with Cons.prems have "x \<in> set q" by simp
    from Cons.IH[OF this, of ?m] show ?thesis unfolding min_lifespan_Cons .
  qed
qed

lemma min_lifespan_attained:
  "min_lifespan m q s = m \<or> (\<exists>x\<in>set q. min_lifespan m q s = lifespan (procs s x))"
proof (induction q arbitrary: m)
  case Nil
  show ?case by (simp add: min_lifespan_def)
next
  case (Cons y q)
  from Cons[of "if m > lifespan (procs s y) then lifespan (procs s y) else m"]
  show ?case unfolding min_lifespan_Cons by (auto split: if_splits)
qed

lemma min_lifespan_least:
  assumes "p \<in> set q" "\<forall>x\<in>set q. lifespan (procs s p) \<le> lifespan (procs s x)"
    and "lifespan (procs s p) < m"
  shows "min_lifespan m q s = lifespan (procs s p)"
proof -
  from min_lifespan_lower[OF assms(1), of m s]
  have le: "min_lifespan m q s \<le> lifespan (procs s p)" .
  from min_lifespan_attained[of m q s] show ?thesis
  proof
    assume "min_lifespan m q s = m"
    with le assms(3) show ?thesis by simp
  next
    assume "\<exists>x\<in>set q. min_lifespan m q s = lifespan (procs s x)"
    then obtain x where "x \<in> set q" "min_lifespan m q s = lifespan (procs s x)" by blast
    with assms(2) le show ?thesis by auto
  qed
qed

lemma min_lifespan_bound:
  assumes "\<forall>x\<in>set q. k \<le> lifespan (procs s x)" "k \<le> m"
  shows "k \<le> min_lifespan m q s"
  using min_lifespan_attained[of m q s] assms by auto

lemma shortest_pick_next_small:
  assumes "shortest_pick_next cnt m s = (Some x, s')" "m \<le> 1000"
  shows "lifespan (procs s x) \<le> 1000 \<or> x \<in> set (readyqueue s')"
proof (cases "find (\<lambda>p. min_lifespan m (readyqueue s) s = lifespan (procs s p)) (readyqueue s)")
  case None
  with assms(1) have "s' = s" "last_entry (readyqueue s) = Some x"
    by (auto simp: shortest_pick_next_def Let_def split: if_splits)
  then have "x \<in> set (readyqueue s')"
    by (auto simp: last_entry_def split: if_splits)
  then show ?thesis ..
next
  case (Some prc)
  then have l: "lifespan (procs s prc) = min_lifespan m (readyqueue s) s"
    by (auto simp: find_Some_iff)
  from assms(1) Some have "x = prc \<or> x \<in> set (readyqueue s') \<and> s' = s"
    by (auto simp: shortest_pick_next_def Let_def last_entry_def split: if_splits)
  with l min_lifespan_le[of m "readyqueue s" s] assms(2) show ?thesis by auto
qed

lemma srtf_schedule_small:
  assumes sch: "srtf_schedule s = Inr (Some x, s')"
    and cur: "case current s of None \<Rightarrow> True | Some c \<Rightarrow> lifespan (procs s c) \<le> 1000"
  shows "lifespan (procs s x) \<le> 1000 \<or> x \<in> set (readyqueue s')"
proof -
  let ?m = "if length (readyqueue s) \<noteq> 0 then min_lifespan 1000 (readyqueue s) s else 1000"
  have m: "?m \<le> 1000" using min_lifespan_le[of 1000 "readyqueue s" s] by simp
  note spn = shortest_pick_next_small[OF _ m]
  have fnd: "lifespan (procs s prc) \<le> 1000"
    if "find (\<lambda>p. ?m = lifespan (procs s p)) (readyqueue s) = Some prc" for prc
  proof -
    from that have "lifespan (procs s prc) = ?m" by (auto simp: find_Some_iff)
    with m show ?thesis by simp
  qed
  show ?thesis
  proof (cases "current s")
    case None
    with sch have "shortest_pick_next (length (readyqueue s)) ?m s = (Some x, s')"
      by (simp add: srtf_schedule_def Let_def)
    then show ?thesis by (rule spn)
  next
    case (Some c)
    with cur have small: "lifespan (procs s c) \<le> 1000" by simp
    from sch Some consider
        (pick) "shortest_pick_next (length (readyqueue s)) ?m s = (Some x, s')"
      | (keep) "x = c"
      | (pre) "find (\<lambda>p. ?m = lifespan (procs s p)) (readyqueue s) = Some x"
      by (auto simp: srtf_schedule_def Let_def simp del: list_add.simps
          split: if_splits option.splits)
    then show ?thesis
    proof cases
      case pick
      then show ?thesis by (rule spn)
    next
      case keep
      with small show ?thesis by simp
    next
      case pre
      from fnd[OF pre] show ?thesis ..
    qed
  qed
qed

lemma execute_current_detached:
  "execute_current sc c s = Inr s' \<Longrightarrow> c \<notin> set (readyqueue s)"
  by (auto simp: execute_current_def Let_def list_empty_node_def set_status_def
      split: if_splits)

lemma srtf_reach_tick:
  assumes inv: "srtf_reach s" and tick: "do_tick srtf_scheduler s = Continue s'"
  shows "srtf_reach s'"
proof -
  let ?sc = "srtf_scheduler"
  let ?s1 = "fork_on_schedule ?sc s"
  have sc: "?sc \<in> set fcfs_schedulers" by (simp add: fcfs_schedulers_def)
  have sc8: "?sc \<in> set (schedulers 0)" by (simp add: schedulers_def)
  from fcfs_schedulers_cases[OF sc] have hk: "forked ?sc = None" "exiting ?sc = None"
    by simp_all
  have sch: "schedule ?sc = srtf_schedule" by (simp add: srtf_scheduler_def)
  from inv have wf: "queues_wf s" "slot_ok s"
    and small: "case current s of None \<Rightarrow> True | Some c \<Rightarrow> lifespan (procs s c) \<le> 1000"
    by (simp_all add: srtf_reach_def)
  from do_tick_inv[OF sc wf, of s'] tick have wf': "queues_wf s'" "slot_ok s'" by simp_all
  from fork_on_schedule_frame[OF hk(1), of s]
  have f1: "current ?s1 = current s" "\<And>p. lifespan (procs ?s1 p) = lifespan (procs s p)"
    by (simp_all add: mono_frame_def)
  from small f1 have small1:
    "case current ?s1 of None \<Rightarrow> True | Some c \<Rightarrow> lifespan (procs ?s1 c) \<le> 1000"
    by (simp split: option.splits)
  from do_tick_steps[of ?sc s s'] tick obtain n s2 s3 where
    s2: "srtf_schedule ?s1 = Inr (n, s2)"
    and ret: "retire_previous ?sc (current ?s1) (s2\<lparr>current := n\<rparr>) = Inr s3"
    and fin: "(current s3 = None \<and> s' = (print_event Idle s3)\<lparr>ticks := ticks s3 + 1\<rparr>) \<or>
              (\<exists>c s4. current s3 = Some c \<and> execute_current ?sc c s3 = Inr s4 \<and>
                 s' = s4\<lparr>ticks := ticks s4 + 1\<rparr>)"
    unfolding sch by auto
  from srtf_schedule_frame[OF s2]
  have f2: "\<And>p. lifespan (procs s2 p) = lifespan (procs ?s1 p)"
    by (simp add: plan_frame_def)
  from retire_previous_result[OF ret hk(2)] retire_previous_queues[OF ret hk(2)]
  have f3: "current s3 = n" "\<And>p. lifespan (procs s3 p) = lifespan (procs s2 p)"
    "readyqueue s3 = readyqueue s2" by simp_all
  from fin have "case current s' of None \<Rightarrow> True | Some c \<Rightarrow> lifespan (procs s' c) \<le> 1000"
  proof (elim disjE exE conjE)
    assume "current s3 = None" "s' = (print_event Idle s3)\<lparr>ticks := ticks s3 + 1\<rparr>"
    then show ?thesis by (simp add: print_event_def)
  next
    fix c s4
    assume c: "current s3 = Some c" and e: "execute_current ?sc c s3 = Inr s4"
      and s': "s' = s4\<lparr>ticks := ticks s4 + 1\<rparr>"
    from execute_current_frame[OF sc8 e]
    have f4: "current s4 = current s3" "lifespan (procs s4 c) = lifespan (procs s3 c)"
      by (simp_all add: mono_frame_def)
    from c f3(1) s2 have "srtf_schedule ?s1 = Inr (Some c, s2)" by simp
    from srtf_schedule_small[OF this small1] execute_current_detached[OF e] f3(3)
    have "lifespan (procs ?s1 c) \<le> 1000" by simp
    with f2 f3(2) f4 c s' show ?thesis by simp
  qed
  with wf' show ?thesis by (simp add: srtf_reach_def)
qed

lemma srtf_reachable:
  assumes "do_simulation srtf_scheduler n (initial_state nr ps) = Continue s"
  shows "srtf_reach s"
proof -
  have "srtf_reach (initial_state nr ps)"
    using initial_state_inv[of nr ps] by (simp add: srtf_reach_def initial_state_def)
  from do_simulation_reach[of srtf_reach srtf_scheduler, OF srtf_reach_tick this assms]
  show ?thesis .
qed

lemma srtf_schedule_preempt:
  assumes wf: "queues_wf s" and ok: "slot_ok s" and small: "lifespan (procs s c) \<le> 1000"
    and run: "running s c"
  shows "list_empty_node c s \<and>
         (\<forall>pre p post.
            readyqueue s = pre @ p # post \<and>
            (\<forall>q\<in>set (readyqueue s). lifespan (procs s p) \<le> lifespan (procs s q)) \<and>
            (\<forall>q\<in>set pre. lifespan (procs s q) \<noteq> lifespan (procs s p)) \<and>
            lifespan (procs s p) < lifespan (procs s c) - age (procs s c) \<longrightarrow>
            (\<exists>s'. srtf_schedule s = Inr (Some p, s') \<and> readyqueue s' = c # pre @ post \<and>
                  forkqueue s' = forkqueue s \<and> resources s' = resources s \<and>
                  procs s' = procs s)) \<and>
         ((\<forall>q\<in>set (readyqueue s).
              lifespan (procs s c) - age (procs s c) \<le> lifespan (procs s q)) \<longrightarrow>
            srtf_schedule s = Inr (Some c, s))"
proof (intro conjI allI impI)
  from run have c: "current s = Some c" "status (procs s c) \<noteq> PROCESS_WAIT"
    "age (procs s c) < lifespan (procs s c)" by (simp_all add: running_def)
  from running_detached[OF ok c(1,2)] show "list_empty_node c s" .
  let ?rem = "lifespan (procs s c) - age (procs s c)"
  have rem: "sint (remaining_word (procs s c)) = int ?rem" "?rem \<le> 1000"
    using sint_remaining[OF c(3) small] c(3) small by simp_all
  let ?m = "if length (readyqueue s) \<noteq> 0 then min_lifespan 1000 (readyqueue s) s else 1000"
  {
    fix pre p post
    assume h: "readyqueue s = pre @ p # post \<and>
            (\<forall>q\<in>set (readyqueue s). lifespan (procs s p) \<le> lifespan (procs s q)) \<and>
            (\<forall>q\<in>set pre. lifespan (procs s q) \<noteq> lifespan (procs s p)) \<and>
            lifespan (procs s p) < ?rem"
    then have rq: "readyqueue s = pre @ p # post"
      and least: "\<forall>q\<in>set (readyqueue s). lifespan (procs s p) \<le> lifespan (procs s q)"
      and first: "\<forall>q\<in>set pre. lifespan (procs s q) \<noteq> lifespan (procs s p)"
      and less: "lifespan (procs s p) < ?rem" by simp_all
    from rq have pin: "p \<in> set (readyqueue s)" by simp
    from less rem(2) have "lifespan (procs s p) < 1000" by simp
    from min_lifespan_least[OF pin least this] rq
    have m: "?m = lifespan (procs s p)" by simp
    have fnd: "find (\<lambda>q. lifespan (procs s p) = lifespan (procs s q)) (pre @ p # post) = Some p"
      using first by (intro find_first) auto
    from wf rq have d: "p \<notin> set pre" "p \<notin> set post" "p \<notin> set (forkqueue s)"
      "p \<notin> set (waiting s)"
      by (auto simp: queues_wf_def)
    have w: "map (\<lambda>r. r\<lparr>waitqueue := removeAll p (waitqueue r)\<rparr>) (resources s) = resources s"
      using d(4) by (auto simp: waiting_def intro!: map_idI)
    let ?s' = "list_add c Readyqueue (list_del_init p s)"
    have lessi: "int (lifespan (procs s p)) < sint (remaining_word (procs s c))"
      unfolding rem(1) using less by simp
    have "srtf_schedule s = Inr (Some p, ?s')"
      unfolding srtf_schedule_def Let_def m
      using c lessi fnd rq by simp
    moreover have "readyqueue ?s' = c # pre @ post" "forkqueue ?s' = forkqueue s"
      "resources ?s' = resources s" "procs ?s' = procs s"
      using rq d w by (simp_all add: list_del_init_def)
    ultimately show "\<exists>s'. srtf_schedule s = Inr (Some p, s') \<and> readyqueue s' = c # pre @ post \<and>
                  forkqueue s' = forkqueue s \<and> resources s' = resources s \<and>
                  procs s' = procs s"
      by (intro exI[of _ ?s']) simp
  }
  {
    assume all: "\<forall>q\<in>set (readyqueue s). ?rem \<le> lifespan (procs s q)"
    from min_lifespan_bound[OF all rem(2)] rem(2) have "?rem \<le> ?m" by simp
    then have "\<not> int ?m < sint (remaining_word (procs s c))"
      unfolding rem(1) by simp
    then show "srtf_schedule s = Inr (Some c, s)"
      unfolding srtf_schedule_def Let_def using c by simp
  }
qed

lemma srtf_arrival:
  "(case do_simulation srtf_scheduler 7
           (initial_state nr [new_process a 5 pa 0 [], new_process b 1 pb 2 []]) of
      Finished s' \<Rightarrow> run_order s' = [(0, a), (1, a), (2, b), (3, a), (4, a), (5, a)]
    | Abort e \<Rightarrow> False | Continue s' \<Rightarrow> False)"
  by (simp add: do_simulation_numeral do_tick_def fork_on_schedule_def initial_state_def
      new_process_def srtf_scheduler_def srtf_schedule_def shortest_pick_next_def
      min_lifespan_def last_entry_def remaining_word_def retire_previous_def
      exit_process_def execute_current_def run_current_acquire_def run_current_release_def
      upd_defs list_empty_node_def run_order_def Let_def enumerate_eq_zip list_all_iff)


text \<open>
  Claim C5.  Take any state \<open>s\<close> that a simulation under SRTF has reached from an initial
  state and in which it goes on, and let \<open>s1\<close> be \<open>s\<close> after the fork step of the next
  tick, the state \<^verbatim>\<open>srtf_schedule\<close> is called in.  When a process \<open>c\<close> is running in
  \<open>s1\<close> (it is in the slot, not waiting, and its age is below its lifespan), then \<open>c\<close> is
  linked into no queue, and
  \<^item> if \<open>p\<close> is the first process of the ready queue \<open>pre @ p # post\<close> whose lifespan is the
    minimum over the ready queue, and this minimum is strictly less than the remaining time
    \<open>lifespan c - age c\<close> of the runner, then \<^verbatim>\<open>srtf_schedule\<close> returns \<open>p\<close> and
    leaves the ready queue \<open>c # pre @ post\<close>: \<open>p\<close> is taken out and the runner re-enters
    the ready queue (at its head); the fork queue, the resources and the process records are
    unchanged;
  \<^item> if no process of the ready queue has a lifespan below the remaining time of the runner
    (in particular if the ready queue is empty), \<^verbatim>\<open>srtf_schedule\<close> returns \<open>c\<close> and
    changes nothing.
  The two cases are exhaustive, so the runner is preempted exactly when the minimum lifespan
  in the ready queue is strictly less than its remaining time.  For a process of lifespan 5
  due at tick 0 and a process of lifespan 1 due at tick 2, without resource requests, with any
  pids \<open>a\<close> and \<open>b\<close>, any priorities and any number of resources, the simulation ends in
  its seventh round; \<open>a\<close> runs at the ticks 0 and 1, \<open>b\<close> at tick 2, and \<open>a\<close> again at
  the ticks 3, 4 and 5.
\<close>

theorem srtf_preemption:
  assumes "do_simulation srtf_scheduler n (initial_state nr ps) = Continue s"
    and "running (fork_on_schedule srtf_scheduler s) c"
  shows "list_empty_node c (fork_on_schedule srtf_scheduler s) \<and>
         (\<forall>pre p post.
            readyqueue (fork_on_schedule srtf_scheduler s) = pre @ p # post \<and>
            (\<forall>q\<in>set (readyqueue (fork_on_schedule srtf_scheduler s)).
               lifespan (procs (fork_on_schedule srtf_scheduler s) p)
                 \<le> lifespan (procs (fork_on_schedule srtf_scheduler s) q)) \<and>
            (\<forall>q\<in>set pre.
               lifespan (procs (fork_on_schedule srtf_scheduler s) q)
                 \<noteq> lifespan (procs (fork_on_schedule srtf_scheduler s) p)) \<and>
            lifespan (procs (fork_on_schedule srtf_scheduler s) p)
              < lifespan (procs (fork_on_schedule srtf_scheduler s) c)
                - age (procs (fork_on_schedule srtf_scheduler s) c) \<longrightarrow>
            (\<exists>s'. schedule srtf_scheduler (fork_on_schedule srtf_scheduler s)
                    = Inr (Some p, s') \<and>
                  readyqueue s' = c # pre @ post \<and>
                  forkqueue s' = forkqueue (fork_on_schedule srtf_scheduler s) \<and>
                  resources s' = resources (fork_on_schedule srtf_scheduler s) \<and>
                  procs s' = procs (fork_on_schedule srtf_scheduler s))) \<and>
         ((\<forall>q\<in>set (readyqueue (fork_on_schedule srtf_scheduler s)).
              lifespan (procs (fork_on_schedule srtf_scheduler s) c)
                - age (procs (fork_on_schedule srtf_scheduler s) c)
                \<le> lifespan (procs (fork_on_schedule srtf_scheduler s) q)) \<longrightarrow>
            schedule srtf_scheduler (fork_on_schedule srtf_scheduler s)
              = Inr (Some c, fork_on_schedule srtf_scheduler s)) \<and>
         (case do_simulation srtf_scheduler 7
                 (initial_state nr' [new_process a 5 pa 0 [], new_process b 1 pb 2 []]) of
            Finished s' \<Rightarrow>
              run_order s' = [(0, a), (1, a), (2, b), (3, a), (4, a), (5, a)]
          | Abort e \<Rightarrow> False | Continue s' \<Rightarrow> False)"
proof -
  let ?s1 = "fork_on_schedule srtf_scheduler s"
  have sch: "schedule srtf_scheduler = srtf_schedule" and hk: "forked srtf_scheduler = None"
    by (simp_all add: srtf_scheduler_def)
  from srtf_reachable[OF assms(1)] have r: "queues_wf s" "slot_ok s"
    and small: "case current s of None \<Rightarrow> True | Some c \<Rightarrow> lifespan (procs s c) \<le> 1000"
    by (simp_all add: srtf_reach_def)
  from fork_on_schedule_inv[OF hk r] have i1: "queues_wf ?s1" "slot_ok ?s1" by simp_all
  from fork_on_schedule_frame[OF hk, of s]
  have f1: "current ?s1 = current s" "lifespan (procs ?s1 c) = lifespan (procs s c)"
    by (simp_all add: mono_frame_def)
  from assms(2) f1(1) have "current s = Some c" by (simp add: running_def)
  with small f1(2) have s1: "lifespan (procs ?s1 c) \<le> 1000"
    by simp
  note pre = srtf_schedule_preempt[OF i1 s1 assms(2)]
  show ?thesis
    unfolding sch
    by (intro conjI pre[THEN conjunct1] pre[THEN conjunct2, THEN conjunct1]
        pre[THEN conjunct2, THEN conjunct2] srtf_arrival)
qed

text \<open>
  The two cases on concrete runs: \<open>srtf_pair\<close> after two rounds, where the process of
  lifespan 1 has just arrived and the runner has 3 ticks left, and \<open>srtf_keep\<close> after one
  round, where the runner has 1 tick left and the ready queue holds a process of lifespan 5.
\<close>

theorem srtf_preemption_witness:
  "(\<exists>s. do_simulation srtf_scheduler 2 srtf_pair = Continue s \<and>
        running (fork_on_schedule srtf_scheduler s) 0 \<and>
        readyqueue (fork_on_schedule srtf_scheduler s) = [1] \<and>
        lifespan (procs (fork_on_schedule srtf_scheduler s) 1) = 1 \<and>
        lifespan (procs (fork_on_schedule srtf_scheduler s) 0) = 5 \<and>
        age (procs (fork_on_schedule srtf_scheduler s) 0) = 2 \<and>
        (\<exists>s'. schedule srtf_scheduler (fork_on_schedule srtf_scheduler s) = Inr (Some 1, s') \<and>
              readyqueue s' = [0])) \<and>
   (\<exists>s. do_simulation srtf_scheduler 1 srtf_keep = Continue s \<and>
        running (fork_on_schedule srtf_scheduler s) 0 \<and>
        readyqueue (fork_on_schedule srtf_scheduler s) = [1] \<and>
        lifespan (procs (fork_on_schedule srtf_scheduler s) 1) = 5 \<and>
        lifespan (procs (fork_on_schedule srtf_scheduler s) 0) = 2 \<and>
        age (procs (fork_on_schedule srtf_scheduler s) 0) = 1 \<and>
        schedule srtf_scheduler (fork_on_schedule srtf_scheduler s)
          = Inr (Some 0, fork_on_schedule srtf_scheduler s))"
proof (rule conjI)
  have "case do_simulation srtf_scheduler 2 srtf_pair of
          Continue s \<Rightarrow> running (fork_on_schedule srtf_scheduler s) 0 \<and>
            readyqueue (fork_on_schedule srtf_scheduler s) = [1] \<and>
            lifespan (procs (fork_on_schedule srtf_scheduler s) 1) = 1 \<and>
            lifespan (procs (fork_on_schedule srtf_scheduler s) 0) = 5 \<and>
            age (procs (fork_on_schedule srtf_scheduler s) 0) = 2
        | _ \<Rightarrow> False"
    by code_simp
  then obtain s where s: "do_simulation srtf_scheduler 2 srtf_pair = Continue s"
    and run: "running (fork_on_schedule srtf_scheduler s) 0"
    and rq: "readyqueue (fork_on_schedule srtf_scheduler s) = [1]"
    and l1: "lifespan (procs (fork_on_schedule srtf_scheduler s) 1) = 1"
    and l0: "lifespan (procs (fork_on_schedule srtf_scheduler s) 0) = 5"
    and a0: "age (procs (fork_on_schedule srtf_scheduler s) 0) = 2"
    by (cases "do_simulation srtf_scheduler 2 srtf_pair") simp_all
  from s have s0: "do_simulation srtf_scheduler 2
      (initial_state 1 [new_process 1 5 0 0 [], new_process 2 1 0 2 []]) = Continue s"
    by (simp add: srtf_pair_def)
  let ?s1 = "fork_on_schedule srtf_scheduler s"
  have h: "readyqueue ?s1 = [] @ 1 # [] \<and>
      (\<forall>q\<in>set (readyqueue ?s1). lifespan (procs ?s1 1) \<le> lifespan (procs ?s1 q)) \<and>
      (\<forall>q\<in>set []. lifespan (procs ?s1 q) \<noteq> lifespan (procs ?s1 1)) \<and>
      lifespan (procs ?s1 1) < lifespan (procs ?s1 0) - age (procs ?s1 0)"
    using rq l1 l0 a0 by simp
  from srtf_preemption[OF s0 run, THEN conjunct2, THEN conjunct1, THEN spec, THEN spec,
      THEN spec, THEN mp, OF h]
  have "\<exists>s'. schedule srtf_scheduler ?s1 = Inr (Some 1, s') \<and> readyqueue s' = [0]"
    by auto
  with s run rq l1 l0 a0 show "\<exists>s. do_simulation srtf_scheduler 2 srtf_pair = Continue s \<and>
        running (fork_on_schedule srtf_scheduler s) 0 \<and>
        readyqueue (fork_on_schedule srtf_scheduler s) = [1] \<and>
        lifespan (procs (fork_on_schedule srtf_scheduler s) 1) = 1 \<and>
        lifespan (procs (fork_on_schedule srtf_scheduler s) 0) = 5 \<and>
        age (procs (fork_on_schedule srtf_scheduler s) 0) = 2 \<and>
        (\<exists>s'. schedule srtf_scheduler (fork_on_schedule srtf_scheduler s) = Inr (Some 1, s') \<and>
              readyqueue s' = [0])"
    by (intro exI[of _ s]) (intro conjI; assumption)
next
  have "case do_simulation srtf_scheduler 1 srtf_keep of
          Continue s \<Rightarrow> running (fork_on_schedule srtf_scheduler s) 0 \<and>
            readyqueue (fork_on_schedule srtf_scheduler s) = [1] \<and>
            lifespan (procs (fork_on_schedule srtf_scheduler s) 1) = 5 \<and>
            lifespan (procs (fork_on_schedule srtf_scheduler s) 0) = 2 \<and>
            age (procs (fork_on_schedule srtf_scheduler s) 0) = 1
        | _ \<Rightarrow> False"
    by code_simp
  then obtain s where s: "do_simulation srtf_scheduler 1 srtf_keep = Continue s"
    and run: "running (fork_on_schedule srtf_scheduler s) 0"
    and rq: "readyqueue (fork_on_schedule srtf_scheduler s) = [1]"
    and l1: "lifespan (procs (fork_on_schedule srtf_scheduler s) 1) = 5"
    and l0: "lifespan (procs (fork_on_schedule srtf_scheduler s) 0) = 2"
    and a0: "age (procs (fork_on_schedule srtf_scheduler s) 0) = 1"
    by (cases "do_simulation srtf_scheduler 1 srtf_keep") simp_all
  from s have s0: "do_simulation srtf_scheduler 1
      (initial_state 1 [new_process 1 2 0 0 [], new_process 2 5 0 0 []]) = Continue s"
    by (simp add: srtf_keep_def)
  let ?s1 = "fork_on_schedule srtf_scheduler s"
  have h: "\<forall>q\<in>set (readyqueue ?s1).
      lifespan (procs ?s1 0) - age (procs ?s1 0) \<le> lifespan (procs ?s1 q)"
    using rq l1 l0 a0 by simp
  from srtf_preemption[OF s0 run, THEN conjunct2, THEN conjunct2, THEN conjunct1, THEN mp, OF h]
  have "schedule srtf_scheduler ?s1 = Inr (Some 0, ?s1)" .
  with s run rq l1 l0 a0 show "\<exists>s. do_simulation srtf_scheduler 1 srtf_keep = Continue s \<and>
        running (fork_on_schedule srtf_scheduler s) 0 \<and>
        readyqueue (fork_on_schedule srtf_scheduler s) = [1] \<and>
        lifespan (procs (fork_on_schedule srtf_scheduler s) 1) = 5 \<and>
        lifespan (procs (fork_on_schedule srtf_scheduler s) 0) = 2 \<and>
        age (procs (fork_on_schedule srtf_scheduler s) 0) = 1 \<and>
        schedule srtf_scheduler (fork_on_schedule srtf_scheduler s)
          = Inr (Some 0, fork_on_schedule srtf_scheduler s)"
    by (intro exI[of _ s]) (intro conjI; assumption)
qed

end
